theory Spec2Isabelle
  imports Main "HOL-Library.Monad_Syntax"
begin

section \<open>The exhaustive counting engine of the link-grammar parser\<close>

text \<open>
  The development embeds the counting code of the parser (the memo table, the connector
  matcher, \<open>do_count\<close> and \<open>do_parse\<close>) as HOL functions.

  \<^item> A \<open>Connector *\<close> is an address into the connector arena, \<open>None\<close> for \<open>NULL\<close>;
    two connectors are the same for the memo table iff their addresses are equal.
  \<^item> The context \<open>count_context_t\<close> is a record that every function takes and returns.
  \<^item> A result is an \<open>option\<close>: \<open>None\<close> stands for a run without a defined result
    (a failed assertion, a \<open>NULL\<close> table or sentence, a word index outside the sentence,
    a division by zero, an overflow of the signed 64-bit count, or recursion deeper than
    the fuel given to \<open>do_count\<close>).
  \<^item> Word positions, costs and \<open>checktimer\<close> are C \<open>int\<close>s and are computed in \<open>int\<close>;
    the narrowing of a position to the \<open>short\<close> field of a table entry, and of a cost to
    its \<open>unsigned short\<close> field, is written out.
\<close>

subsection \<open>Connectors, disjuncts, sentences\<close>

type_synonym conn_ref = nat

datatype priority = THIN_priority | UP_priority | DOWN_priority

record Connector =
  label :: int
  string :: string
  multi :: bool
  length_limit :: int
  priority :: priority
  word :: int
  "next" :: "conn_ref option"

record Disjunct =
  left :: "conn_ref option"
  right :: "conn_ref option"
  marked :: bool

text \<open>A word is the list of its disjuncts (the chain through \<open>d->next\<close>).\<close>

type_synonym Word = "Disjunct list"

record Sentence =
  sent_word :: "Word list"
  sent_length :: int

type_synonym Resources = nat

record Parse_Options =
  opt_islands_ok :: bool
  opt_resources :: "Resources option"

subsection \<open>What the counting code takes from the rest of the parser\<close>

text \<open>
  The functions below are called by the counting code and defined elsewhere; they are
  parameters of the model, together with the connector arena, which is read-only while
  counting.
  \<^item> \<open>conn\<close>: the connector at an address.
  \<^item> \<open>hash_fn\<close>: the hash of a key before it is folded into the table's index bits.
  \<^item> \<open>easy_match\<close>: the string matcher called by \<open>do_match\<close>.
  \<^item> \<open>form_match_list\<close>: the candidate disjuncts on word \<open>w\<close> for the boundary
    connectors \<open>le\<close> and \<open>re\<close> (arguments \<open>w le lw re rw\<close>).
  \<^item> \<open>resources_exhausted\<close>: the answer of the resource budget behind a handle. The
    budget changes with time; the second argument is the moment of the poll, which is the
    value of \<open>checktimer\<close> when \<open>find_table_pointer\<close> polls, and \<open>0\<close> for the poll at the
    start of \<open>do_parse\<close>.
\<close>

record environment =
  conn :: "conn_ref \<Rightarrow> Connector"
  hash_fn :: "int \<Rightarrow> int \<Rightarrow> conn_ref option \<Rightarrow> conn_ref option \<Rightarrow> int \<Rightarrow> nat"
  easy_match :: "string \<Rightarrow> string \<Rightarrow> bool"
  form_match_list :: "int \<Rightarrow> conn_ref option \<Rightarrow> int \<Rightarrow> conn_ref option \<Rightarrow> int \<Rightarrow> Disjunct list"
  resources_exhausted :: "Resources option \<Rightarrow> int \<Rightarrow> bool"

subsection \<open>The memo table\<close>

text \<open>
  \<open>Table_connector\<close>: the key is kept in \<open>short\<close>, pointer and \<open>unsigned short\<close> fields.
  The \<open>next\<close> pointer of an entry is the rest of the list that holds it: a bucket of the
  table is the list of its entries, newest first.
\<close>

record Table_connector =
  tc_lw :: int
  tc_rw :: int
  tc_le :: "conn_ref option"
  tc_re :: "conn_ref option"
  tc_cost :: int
  tc_count :: int

text \<open>
  A \<open>Table_connector *\<close> is a bucket index and the age of the entry in its bucket (the
  number of entries that were in the bucket when it was stored). Entries are only ever
  added at the head, so the age of an entry never changes.
\<close>

type_synonym Table_connector_ptr = "nat \<times> nat"

record count_context =
  local_sent :: "Word list option"
  null_block :: int
  islands_ok :: bool
  null_links :: bool
  table_size :: nat
  log2_table_size :: nat
  table :: "(nat \<Rightarrow> Table_connector list) option"
  current_resources :: "Resources option"
  exhausted :: bool
  checktimer :: int

definition to_short :: "int \<Rightarrow> int" where
  "to_short x = (x + 32768) mod 65536 - 32768"

definition to_ushort :: "int \<Rightarrow> int" where
  "to_ushort x = x mod 65536"

definition INT_MAX :: int where
  "INT_MAX = 2147483647"

text \<open>
  The value of an arithmetic result in an \<open>int\<close>: it wraps around, as it does on the
  two's-complement machines that run the parser.
\<close>

definition to_int :: "int \<Rightarrow> int" where
  "to_int x = (x + 2147483648) mod 4294967296 - 2147483648"

text \<open>
  Modelled from the spec: \<open>pair_hash\<close>, which is not in the source at hand, folds the key
  into \<open>log2_table_size\<close> bits.
\<close>

definition pair_hash ::
  "environment \<Rightarrow> nat \<Rightarrow> int \<Rightarrow> int \<Rightarrow> conn_ref option \<Rightarrow> conn_ref option \<Rightarrow> int \<Rightarrow> nat" where
  "pair_hash X log2_size lw rw le re cost = hash_fn X lw rw le re cost mod 2 ^ log2_size"

text \<open>The test of the search loop of \<open>find_table_pointer\<close> on one entry.\<close>

definition same_key ::
  "int \<Rightarrow> int \<Rightarrow> conn_ref option \<Rightarrow> conn_ref option \<Rightarrow> int \<Rightarrow> Table_connector \<Rightarrow> bool" where
  "same_key lw rw le re cost t \<longleftrightarrow>
     tc_lw t = lw \<and> tc_rw t = rw \<and> tc_le t = le \<and> tc_re t = re \<and> tc_cost t = cost"

text \<open>The search loop: the age of the first entry of the chain with the key.\<close>

fun find_chain ::
  "int \<Rightarrow> int \<Rightarrow> conn_ref option \<Rightarrow> conn_ref option \<Rightarrow> int \<Rightarrow> Table_connector list \<Rightarrow> nat option" where
  "find_chain lw rw le re cost [] = None"
| "find_chain lw rw le re cost (t # ts) =
     (if same_key lw rw le re cost t then Some (length ts)
      else find_chain lw rw le re cost ts)"

text \<open>Reading and writing through an entry pointer.\<close>

fun chain_at :: "nat \<Rightarrow> Table_connector list \<Rightarrow> Table_connector option" where
  "chain_at p [] = None"
| "chain_at p (t # ts) = (if p = length ts then Some t else chain_at p ts)"

fun chain_set_count :: "nat \<Rightarrow> int \<Rightarrow> Table_connector list \<Rightarrow> Table_connector list" where
  "chain_set_count p v [] = []"
| "chain_set_count p v (t # ts) =
     (if p = length ts then t\<lparr>tc_count := v\<rparr> # ts else t # chain_set_count p v ts)"

definition entry_at :: "count_context \<Rightarrow> Table_connector_ptr \<Rightarrow> Table_connector option" where
  "entry_at ctxt t = (case table ctxt of None \<Rightarrow> None | Some tb \<Rightarrow> chain_at (snd t) (tb (fst t)))"

definition set_count :: "count_context \<Rightarrow> Table_connector_ptr \<Rightarrow> int \<Rightarrow> count_context" where
  "set_count ctxt t v =
     (case table ctxt of
        None \<Rightarrow> ctxt
      | Some tb \<Rightarrow> ctxt\<lparr>table := Some (tb(fst t := chain_set_count (snd t) v (tb (fst t))))\<rparr>)"

definition free_table :: "count_context \<Rightarrow> count_context" where
  "free_table ctxt = ctxt\<lparr>table := None, table_size := 0\<rparr>"

text \<open>
  \<open>init_table\<close>: \<open>sent_len\<close> is a \<open>size_t\<close> and \<open>shift\<close> an \<open>unsigned int\<close>, so the sum
  \<open>12 + sent_len / 6\<close> is stored modulo \<open>2^32\<close>.
\<close>

definition init_table :: "count_context \<Rightarrow> nat \<Rightarrow> count_context" where
  "init_table ctxt sent_len =
     (let ctxt1 = (if table ctxt \<noteq> None then free_table ctxt else ctxt);
          shift = (if sent_len \<ge> 10 then (12 + sent_len div 6) mod 4294967296 else 12);
          shift = (if 24 < shift then 24 else shift)
      in ctxt1\<lparr>table_size := 2 ^ shift, log2_table_size := shift, table := Some (\<lambda>i. [])\<rparr>)"

text \<open>\<open>table_store\<close>: a new entry at the head of the bucket of the key.\<close>

definition table_store ::
  "environment \<Rightarrow> count_context \<Rightarrow> int \<Rightarrow> int \<Rightarrow> conn_ref option \<Rightarrow> conn_ref option \<Rightarrow> int \<Rightarrow> int
     \<Rightarrow> (Table_connector_ptr \<times> count_context) option" where
  "table_store X ctxt lw rw le re cost count =
     (case table ctxt of
        None \<Rightarrow> None
      | Some tb \<Rightarrow>
          let n = \<lparr>tc_lw = to_short lw, tc_rw = to_short rw, tc_le = le, tc_re = re,
                   tc_cost = to_ushort cost, tc_count = count\<rparr>;
              h = pair_hash X (log2_table_size ctxt) lw rw le re cost
          in Some ((h, length (tb h)), ctxt\<lparr>table := Some (tb(h := n # tb h))\<rparr>))"

text \<open>
  \<open>find_table_pointer\<close>: a hit returns the entry and leaves the context as it is. A miss
  advances \<open>checktimer\<close>, an \<open>int\<close> (\<open>ctxt->checktimer++\<close>); when the context is
  exhausted, or the poll that is due whenever \<open>checktimer\<close> is a multiple of 450100 says
  so, it sets \<open>exhausted\<close> and stores and returns an entry of count 0.
\<close>

definition find_table_pointer ::
  "environment \<Rightarrow> count_context \<Rightarrow> int \<Rightarrow> int \<Rightarrow> conn_ref option \<Rightarrow> conn_ref option \<Rightarrow> int
     \<Rightarrow> (Table_connector_ptr option \<times> count_context) option" where
  "find_table_pointer X ctxt lw rw le re cost =
     (case table ctxt of
        None \<Rightarrow> None
      | Some tb \<Rightarrow>
          let h = pair_hash X (log2_table_size ctxt) lw rw le re cost in
          (case find_chain lw rw le re cost (tb h) of
             Some p \<Rightarrow> Some (Some (h, p), ctxt)
           | None \<Rightarrow>
               let ctxt1 = ctxt\<lparr>checktimer := to_int (checktimer ctxt + 1)\<rparr> in
               if exhausted ctxt1 \<or>
                  (checktimer ctxt1 mod 450100 = 0 \<and> current_resources ctxt1 \<noteq> None \<and>
                   resources_exhausted X (current_resources ctxt1) (checktimer ctxt1))
               then do {
                 (t, ctxt2) \<leftarrow> table_store X (ctxt1\<lparr>exhausted := True\<rparr>) lw rw le re cost 0;
                 Some (Some t, ctxt2) }
               else Some (None, ctxt1)))"

text \<open>\<open>table_lookup\<close>: the count of the key if there, \<open>-1\<close> otherwise.\<close>

definition table_lookup ::
  "environment \<Rightarrow> count_context \<Rightarrow> int \<Rightarrow> int \<Rightarrow> conn_ref option \<Rightarrow> conn_ref option \<Rightarrow> int
     \<Rightarrow> (int \<times> count_context) option" where
  "table_lookup X ctxt lw rw le re cost =
     do {
       (t, ctxt1) \<leftarrow> find_table_pointer X ctxt lw rw le re cost;
       case t of
         None \<Rightarrow> Some (- 1, ctxt1)
       | Some p \<Rightarrow> do { e \<leftarrow> entry_at ctxt1 p; Some (tc_count e, ctxt1) }
     }"

definition pseudocount ::
  "environment \<Rightarrow> count_context \<Rightarrow> int \<Rightarrow> int \<Rightarrow> conn_ref option \<Rightarrow> conn_ref option \<Rightarrow> int
     \<Rightarrow> (int \<times> count_context) option" where
  "pseudocount X ctxt lw rw le re cost =
     do {
       (count, ctxt1) \<leftarrow> table_lookup X ctxt lw rw le re cost;
       if count = 0 then Some (0, ctxt1) else Some (1, ctxt1)
     }"

subsection \<open>The connector matcher\<close>

text \<open>
  C strings: the character under the pointer is the head of the list, and the terminating
  \<open>NUL\<close> once the list is used up. Connector strings hold no \<open>NUL\<close> themselves.
\<close>

definition isupper :: "char \<Rightarrow> bool" where
  "isupper c \<longleftrightarrow> 65 \<le> (of_char c :: nat) \<and> (of_char c :: nat) \<le> 90"

text \<open>
  The first loop of the matcher: while either current character is upper case, both must
  be equal. \<open>None\<close> is the mismatch; otherwise the two rests are returned.
\<close>

fun skip_upper :: "string \<Rightarrow> string \<Rightarrow> (string \<times> string) option" where
  "skip_upper (a # s) (b # t) =
     (if isupper a \<or> isupper b then (if a \<noteq> b then None else skip_upper s t)
      else Some (a # s, b # t))"
| "skip_upper [] (b # t) = (if isupper b then None else Some ([], b # t))"
| "skip_upper (a # s) [] = (if isupper a then None else Some (a # s, []))"
| "skip_upper [] [] = Some ([], [])"

fun thin_match :: "string \<Rightarrow> string \<Rightarrow> bool" where
  "thin_match (a # s) (b # t) =
     (if a = CHR ''*'' \<or> b = CHR ''*'' \<or> (a = b \<and> a \<noteq> CHR ''^'') then thin_match s t
      else False)"
| "thin_match s t = True"

fun up_down_match :: "string \<Rightarrow> string \<Rightarrow> bool" where
  "up_down_match (a # s) (b # t) =
     (if a = b \<or> a = CHR ''*'' \<or> b = CHR ''^'' then up_down_match s t else False)"
| "up_down_match s t = True"

fun down_up_match :: "string \<Rightarrow> string \<Rightarrow> bool" where
  "down_up_match (a # s) (b # t) =
     (if a = b \<or> b = CHR ''*'' \<or> a = CHR ''^'' then down_up_match s t else False)"
| "down_up_match s t = True"

text \<open>
  \<open>do_match\<close> as compiled with \<open>USE_FAT_LINKAGES\<close>. The distance is read from the table
  \<open>effective_dist\<close> of the context, a parameter here.
\<close>

definition do_match_fat ::
  "environment \<Rightarrow> (int \<Rightarrow> int \<Rightarrow> int) \<Rightarrow> conn_ref \<Rightarrow> conn_ref \<Rightarrow> int \<Rightarrow> int \<Rightarrow> bool option" where
  "do_match_fat X effective_dist a b aw bw =
     (if label (conn X a) \<noteq> label (conn X b) then Some False
      else case skip_upper (string (conn X a)) (string (conn X b)) of
        None \<Rightarrow> Some False
      | Some (s, t) \<Rightarrow>
          let x = priority (conn X a); y = priority (conn X b) in
          do {
            dist \<leftarrow> (if aw = 0 \<and> bw = 0 then Some 0
                     else if aw < bw then Some (effective_dist aw bw) else None);
            if dist > length_limit (conn X a) \<or> dist > length_limit (conn X b) then Some False
            else if x = THIN_priority \<and> y = THIN_priority then Some (thin_match s t)
            else if x = UP_priority \<and> y = DOWN_priority then Some (up_down_match s t)
            else if y = UP_priority \<and> x = DOWN_priority then Some (down_up_match s t)
            else Some False
          })"

text \<open>\<open>do_match\<close> as compiled without \<open>USE_FAT_LINKAGES\<close>, the one \<open>do_count\<close> calls.\<close>

definition do_match :: "environment \<Rightarrow> conn_ref \<Rightarrow> conn_ref \<Rightarrow> int \<Rightarrow> int \<Rightarrow> bool option" where
  "do_match X a b aw bw =
     (let dist = bw - aw in
      if \<not> aw \<le> bw then None
      else if dist > length_limit (conn X a) \<or> dist > length_limit (conn X b) then Some False
      else Some (easy_match X (string (conn X a)) (string (conn X b))))"

text \<open>
  Modelled from the spec: \<open>easy_match\<close>, which is not in the source at hand, is the
  matcher without labels and priorities: the upper-case prefixes must be equal, and the
  rests match character by character, where \<open>*\<close> matches anything and \<open>^\<close> only \<open>*\<close>.
\<close>

definition easy_match_spec :: "string \<Rightarrow> string \<Rightarrow> bool" where
  "easy_match_spec s t = (case skip_upper s t of None \<Rightarrow> False | Some (s', t') \<Rightarrow> thin_match s' t')"

subsection \<open>The counter\<close>

text \<open>Arithmetic on \<open>s64\<close>: a result outside the type is undefined.\<close>

definition in_s64 :: "int \<Rightarrow> bool" where
  "in_s64 x \<longleftrightarrow> - (2 ^ 63) \<le> x \<and> x < 2 ^ 63"

definition s64_add :: "int \<Rightarrow> int \<Rightarrow> int option" where
  "s64_add a b = (if in_s64 (a + b) then Some (a + b) else None)"

definition s64_mul :: "int \<Rightarrow> int \<Rightarrow> int option" where
  "s64_mul a b = (if in_s64 (a * b) then Some (a * b) else None)"

text \<open>
  Division of C \<open>int\<close>s: towards zero, undefined for a zero divisor and for the one
  quotient that is not an \<open>int\<close>.
\<close>

definition c_div :: "int \<Rightarrow> int \<Rightarrow> int option" where
  "c_div a b =
     (if b = 0 \<or> (a = - 2147483648 \<and> b = - 1) then None
      else Some (sgn a * sgn b * (\<bar>a\<bar> div \<bar>b\<bar>)))"

text \<open>\<open>ctxt->local_sent[w].d\<close>\<close>

definition word_disjuncts :: "count_context \<Rightarrow> int \<Rightarrow> Disjunct list option" where
  "word_disjuncts ctxt w =
     (case local_sent ctxt of
        None \<Rightarrow> None
      | Some ws \<Rightarrow> if 0 \<le> w \<and> w < int (length ws) then Some (ws ! nat w) else None)"

text \<open>
  A counting function is \<open>pseudocount\<close> or the recursive call of \<open>do_count\<close>: it takes
  the context and a key and returns a count and the new context.
\<close>

type_synonym counting =
  "count_context \<Rightarrow> int \<Rightarrow> int \<Rightarrow> conn_ref option \<Rightarrow> conn_ref option \<Rightarrow> int
     \<Rightarrow> (int \<times> count_context) option"

text \<open>\<open>if (b) n += f(...)\<close>\<close>

definition add_if ::
  "bool \<Rightarrow> (count_context \<Rightarrow> (int \<times> count_context) option) \<Rightarrow> int \<times> count_context
     \<Rightarrow> (int \<times> count_context) option" where
  "add_if b f r =
     (if b then do { (p, ctxt1) \<leftarrow> f (snd r); n \<leftarrow> s64_add (fst r) p; Some (n, ctxt1) }
      else Some r)"

text \<open>
  \<open>Lmatch\<close> and \<open>Rmatch\<close>: the two connectors when both are there and match, \<open>None\<close>
  otherwise.
\<close>

definition side_match ::
  "environment \<Rightarrow> conn_ref option \<Rightarrow> conn_ref option \<Rightarrow> int \<Rightarrow> int
     \<Rightarrow> (conn_ref \<times> conn_ref) option option" where
  "side_match X x y aw bw =
     (case x of
        None \<Rightarrow> Some None
      | Some a \<Rightarrow>
          (case y of
             None \<Rightarrow> Some None
           | Some b \<Rightarrow> do { m \<leftarrow> do_match X a b aw bw; Some (if m then Some (a, b) else None) }))"

text \<open>
  The four terms of \<open>leftcount\<close> and of \<open>rightcount\<close>, as they are added up once with
  \<open>pseudocount\<close> and once with \<open>do_count\<close>. The connectors \<open>a\<close> (on the left word) and
  \<open>b\<close> (on the right word) are the matched pair.
\<close>

definition side_count ::
  "environment \<Rightarrow> counting \<Rightarrow> count_context \<Rightarrow> int \<Rightarrow> int \<Rightarrow> (conn_ref \<times> conn_ref) option \<Rightarrow> int
     \<Rightarrow> (int \<times> count_context) option" where
  "side_count X cnt ctxt aw bw m cost =
     (case m of
        None \<Rightarrow> Some (0, ctxt)
      | Some (a, b) \<Rightarrow>
          do {
            r1 \<leftarrow> cnt ctxt aw bw (next (conn X a)) (next (conn X b)) cost;
            r2 \<leftarrow> add_if (multi (conn X a))
                    (\<lambda>c. cnt c aw bw (Some a) (next (conn X b)) cost) r1;
            r3 \<leftarrow> add_if (multi (conn X b))
                    (\<lambda>c. cnt c aw bw (next (conn X a)) (Some b) cost) r2;
            add_if (multi (conn X a) \<and> multi (conn X b))
                    (\<lambda>c. cnt c aw bw (Some a) (Some b) cost) r3
          })"

text \<open>
  The pseudocount pass of one iteration of the innermost loop: \<open>pseudototal\<close>. The
  pseudocounts are 0 or 1, so these sums and products stay small.
\<close>

definition pseudo_pass ::
  "environment \<Rightarrow> count_context \<Rightarrow> int \<Rightarrow> int \<Rightarrow> conn_ref option \<Rightarrow> conn_ref option \<Rightarrow> int
     \<Rightarrow> Disjunct \<Rightarrow> (conn_ref \<times> conn_ref) option \<Rightarrow> (conn_ref \<times> conn_ref) option \<Rightarrow> int \<Rightarrow> int
     \<Rightarrow> (int \<times> count_context) option" where
  "pseudo_pass X ctxt lw rw le re w d Lmatch Rmatch lcost rcost =
     do {
       (leftcount, ctxt1) \<leftarrow> side_count X (pseudocount X) ctxt lw w Lmatch lcost;
       (rightcount, ctxt2) \<leftarrow> side_count X (pseudocount X) ctxt1 w rw Rmatch rcost;
       (pseudototal, ctxt3) \<leftarrow>
         (if leftcount > 0
          then do { (p, c) \<leftarrow> pseudocount X ctxt2 w rw (right d) re rcost;
                    Some (leftcount * rightcount + leftcount * p, c) }
          else Some (leftcount * rightcount, ctxt2));
       if le = None \<and> rightcount > 0
       then do { (p, c) \<leftarrow> pseudocount X ctxt3 lw w le (left d) lcost;
                 Some (pseudototal + rightcount * p, c) }
       else Some (pseudototal, ctxt3)
     }"

text \<open>
  The real pass of the same iteration, taken when \<open>pseudototal\<close> is not 0: the new value
  of \<open>total\<close>, before the test against \<open>INT_MAX\<close>.
\<close>

definition real_pass ::
  "environment \<Rightarrow> counting \<Rightarrow> count_context \<Rightarrow> int \<Rightarrow> int \<Rightarrow> conn_ref option \<Rightarrow> conn_ref option \<Rightarrow> int
     \<Rightarrow> Disjunct \<Rightarrow> (conn_ref \<times> conn_ref) option \<Rightarrow> (conn_ref \<times> conn_ref) option \<Rightarrow> int \<Rightarrow> int
     \<Rightarrow> int \<Rightarrow> (int \<times> count_context) option" where
  "real_pass X rec ctxt lw rw le re w d Lmatch Rmatch lcost rcost tot =
     do {
       (leftcount, ctxt1) \<leftarrow> side_count X rec ctxt lw w Lmatch lcost;
       (rightcount, ctxt2) \<leftarrow> side_count X rec ctxt1 w rw Rmatch rcost;
       both \<leftarrow> s64_mul leftcount rightcount;
       total1 \<leftarrow> s64_add tot both;
       (total2, ctxt3) \<leftarrow>
         (if leftcount > 0
          then do { (x, c) \<leftarrow> rec ctxt2 w rw (right d) re rcost;
                    y \<leftarrow> s64_mul leftcount x;
                    z \<leftarrow> s64_add total1 y;
                    Some (z, c) }
          else Some (total1, ctxt2));
       if le = None \<and> rightcount > 0
       then do { (x, c) \<leftarrow> rec ctxt3 lw w le (left d) lcost;
                 y \<leftarrow> s64_mul rightcount x;
                 z \<leftarrow> s64_add total2 y;
                 Some (z, c) }
       else Some (total2, ctxt3)
     }"

text \<open>
  A loop that can be left by \<open>return\<close>: a step either goes on with a new \<open>total\<close> or
  returns a value from \<open>do_count\<close>.
\<close>

datatype progress = Running int | Returned int

primrec for_loop ::
  "('a \<Rightarrow> int \<Rightarrow> count_context \<Rightarrow> (progress \<times> count_context) option) \<Rightarrow> 'a list \<Rightarrow> int
     \<Rightarrow> count_context \<Rightarrow> (progress \<times> count_context) option" where
  "for_loop step [] tot ctxt = Some (Running tot, ctxt)"
| "for_loop step (x # xs) tot ctxt =
     do {
       (r, ctxt1) \<leftarrow> step x tot ctxt;
       case r of
         Returned v \<Rightarrow> Some (Returned v, ctxt1)
       | Running total1 \<Rightarrow> for_loop step xs total1 ctxt1
     }"

text \<open>
  The body of the loop over \<open>lcost\<close>, for the split word \<open>w\<close> and its disjunct \<open>d\<close>.
  When \<open>tot\<close> exceeds \<open>INT_MAX\<close> the function returns \<open>INT_MAX\<close>; the store
  \<open>t->count = total\<close> that precedes the \<open>return\<close> is made where the frame is left, in
  \<open>do_count_frame\<close>.
\<close>

definition count_split ::
  "environment \<Rightarrow> counting \<Rightarrow> int \<Rightarrow> int \<Rightarrow> conn_ref option
     \<Rightarrow> conn_ref option \<Rightarrow> int \<Rightarrow> int \<Rightarrow> Disjunct \<Rightarrow> int \<Rightarrow> int \<Rightarrow> count_context
     \<Rightarrow> (progress \<times> count_context) option" where
  "count_split X rec lw rw le re null_count w d lcost tot ctxt =
     (let rcost = null_count - lcost in
      do {
        Lmatch \<leftarrow> side_match X le (left d) lw w;
        Rmatch \<leftarrow> side_match X (right d) re w rw;
        (pseudototal, ctxt1) \<leftarrow> pseudo_pass X ctxt lw rw le re w d Lmatch Rmatch lcost rcost;
        if pseudototal \<noteq> 0
        then do {
          (tot1, ctxt2) \<leftarrow>
            real_pass X rec ctxt1 lw rw le re w d Lmatch Rmatch lcost rcost tot;
          if INT_MAX < tot1
          then Some (Returned INT_MAX, ctxt2)
          else Some (Running tot1, ctxt2) }
        else Some (Running tot, ctxt1)
      })"

text \<open>The loop over the disjuncts of word \<open>lw + 1\<close> when both boundary connectors are null.\<close>

primrec null_loop ::
  "counting \<Rightarrow> int \<Rightarrow> int \<Rightarrow> int \<Rightarrow> Disjunct list \<Rightarrow> int \<Rightarrow> count_context
     \<Rightarrow> (int \<times> count_context) option" where
  "null_loop rec w rw null_count [] tot ctxt = Some (tot, ctxt)"
| "null_loop rec w rw null_count (d # ds) tot ctxt =
     (if left d = None
      then do {
        (x, ctxt1) \<leftarrow> rec ctxt w rw (right d) None (null_count - 1);
        total1 \<leftarrow> s64_add tot x;
        null_loop rec w rw null_count ds total1 ctxt1 }
      else null_loop rec w rw null_count ds tot ctxt)"

text \<open>
  One frame of \<open>do_count\<close>; \<open>rec\<close> stands for its recursive calls. The sum
  \<open>(rw-lw-1) + ctxt->null_block-1\<close> of the islands test is an \<open>int\<close>.
\<close>

definition do_count_frame ::
  "environment \<Rightarrow> counting \<Rightarrow> count_context \<Rightarrow> int \<Rightarrow> int \<Rightarrow> conn_ref option \<Rightarrow> conn_ref option
     \<Rightarrow> int \<Rightarrow> (int \<times> count_context) option" where
  "do_count_frame X rec ctxt lw rw le re null_count =
     (if null_count < 0 then Some (0, ctxt)
      else do {
        (found, ctxt0) \<leftarrow> find_table_pointer X ctxt lw rw le re null_count;
        case found of
          Some t \<Rightarrow> do { e \<leftarrow> entry_at ctxt0 t; Some (tc_count e, ctxt0) }
        | None \<Rightarrow> do {
            (t, ctxt1) \<leftarrow> table_store X ctxt0 lw rw le re null_count 0;
            if rw = 1 + lw
            then (if le = None \<and> re = None \<and> null_count = 0
                  then Some (1, set_count ctxt1 t 1)
                  else Some (0, set_count ctxt1 t 0))
            else if le = None \<and> re = None
            then (if \<not> islands_ok ctxt1 \<and> lw \<noteq> - 1
                  then do {
                    q \<leftarrow> c_div (to_int ((rw - lw - 1) + null_block ctxt1 - 1)) (null_block ctxt1);
                    if null_count = q
                    then Some (1, set_count ctxt1 t 1)
                    else Some (0, set_count ctxt1 t 0) }
                  else if null_count = 0
                  then Some (0, set_count ctxt1 t 0)
                  else do {
                    ds \<leftarrow> word_disjuncts ctxt1 (lw + 1);
                    (tot, ctxt2) \<leftarrow> null_loop rec (lw + 1) rw null_count ds 0 ctxt1;
                    (x, ctxt3) \<leftarrow> rec ctxt2 (lw + 1) rw None None (null_count - 1);
                    total1 \<leftarrow> s64_add tot x;
                    Some (total1, set_count ctxt3 t total1) })
            else
              (let start_word = (case le of None \<Rightarrow> lw + 1 | Some a \<Rightarrow> word (conn X a));
                   end_word = (case re of None \<Rightarrow> rw | Some b \<Rightarrow> word (conn X b) + 1)
               in do {
                 (r, ctxt2) \<leftarrow>
                   for_loop
                     (\<lambda>w. for_loop
                        (\<lambda>d. for_loop
                           (\<lambda>lcost. count_split X rec lw rw le re null_count w d lcost)
                           [0..null_count])
                        (form_match_list X w le lw re rw))
                     [start_word..end_word - 1] 0 ctxt1;
                 case r of
                   Returned v \<Rightarrow> Some (v, set_count ctxt2 t v)
                 | Running tot \<Rightarrow> Some (tot, set_count ctxt2 t tot) })
          }
      })"

text \<open>
  \<open>do_count\<close>. The first argument after the environment bounds the depth of the
  recursion; a run that would go deeper has no result.
\<close>

primrec do_count :: "environment \<Rightarrow> nat \<Rightarrow> counting" where
  "do_count X 0 = (\<lambda>ctxt lw rw le re null_count. None)"
| "do_count X (Suc fuel) = do_count_frame X (do_count X fuel)"

subsection \<open>The driver\<close>

definition do_parse ::
  "environment \<Rightarrow> nat \<Rightarrow> Sentence \<Rightarrow> count_context \<Rightarrow> int \<Rightarrow> Parse_Options
     \<Rightarrow> (int \<times> count_context) option" where
  "do_parse X fuel sent ctxt null_count opts =
     (let ctxt1 = ctxt\<lparr>current_resources := opt_resources opts\<rparr>;
          ctxt2 = ctxt1\<lparr>exhausted := resources_exhausted X (current_resources ctxt1) 0\<rparr>;
          ctxt3 = ctxt2\<lparr>checktimer := 0\<rparr>;
          ctxt4 = ctxt3\<lparr>local_sent := Some (sent_word sent)\<rparr>;
          ctxt5 = ctxt4\<lparr>null_block := 1\<rparr>;
          ctxt6 = ctxt5\<lparr>islands_ok := opt_islands_ok opts\<rparr>
      in do {
        (tot, ctxt7) \<leftarrow> do_count X fuel ctxt6 (- 1) (sent_length sent) None None (null_count + 1);
        Some (tot, ctxt7\<lparr>local_sent := None, current_resources := None, checktimer := 0\<rparr>)
      })"

text \<open>
  \<open>alloc_count_context\<close>: a zeroed context with a fresh table. \<open>free_count_context\<close>
  frees the table and then the context itself; its result is the context as it is
  released.
\<close>

definition alloc_count_context :: "nat \<Rightarrow> count_context" where
  "alloc_count_context sent_len =
     init_table
       \<lparr>local_sent = None, null_block = 0, islands_ok = False, null_links = False,
        table_size = 0, log2_table_size = 0, table = None, current_resources = None,
        exhausted = False, checktimer = 0\<rparr> sent_len"


subsection \<open>Notions used to state the properties\<close>

text \<open>The search loop of \<open>find_table_pointer\<close> alone: the entry of a key, if there is one.\<close>

definition lookup_ptr ::
  "environment \<Rightarrow> count_context \<Rightarrow> int \<Rightarrow> int \<Rightarrow> conn_ref option \<Rightarrow> conn_ref option \<Rightarrow> int
     \<Rightarrow> Table_connector_ptr option" where
  "lookup_ptr X ctxt lw rw le re cost =
     (case table ctxt of
        None \<Rightarrow> None
      | Some tb \<Rightarrow>
          let h = pair_hash X (log2_table_size ctxt) lw rw le re cost
          in map_option (Pair h) (find_chain lw rw le re cost (tb h)))"

text \<open>The stored count of a key, if it is memoized.\<close>

definition lookup_count ::
  "environment \<Rightarrow> count_context \<Rightarrow> int \<Rightarrow> int \<Rightarrow> conn_ref option \<Rightarrow> conn_ref option \<Rightarrow> int
     \<Rightarrow> int option" where
  "lookup_count X ctxt lw rw le re cost =
     do { t \<leftarrow> lookup_ptr X ctxt lw rw le re cost; e \<leftarrow> entry_at ctxt t; Some (tc_count e) }"

text \<open>
  The test that \<open>find_table_pointer\<close> makes after a miss, as a condition on the context
  before the call: the context is exhausted, or the poll is due and says so.
\<close>

definition exhausting :: "environment \<Rightarrow> count_context \<Rightarrow> bool" where
  "exhausting X ctxt \<longleftrightarrow>
     exhausted ctxt \<or>
     (to_int (checktimer ctxt + 1) mod 450100 = 0 \<and> current_resources ctxt \<noteq> None \<and>
      resources_exhausted X (current_resources ctxt) (to_int (checktimer ctxt + 1)))"

text \<open>
  \<open>extends ctxt ctxt'\<close>: \<open>ctxt'\<close> is \<open>ctxt\<close> after some counting. The configuration is the
  same, \<open>exhausted\<close> has not been reset, and every bucket of the table is the old bucket
  with new entries in front of it (no entry has been removed or changed).
\<close>

definition extends :: "count_context \<Rightarrow> count_context \<Rightarrow> bool" where
  "extends ctxt ctxt' \<longleftrightarrow>
     local_sent ctxt' = local_sent ctxt \<and> null_block ctxt' = null_block ctxt \<and>
     islands_ok ctxt' = islands_ok ctxt \<and> null_links ctxt' = null_links ctxt \<and>
     table_size ctxt' = table_size ctxt \<and> log2_table_size ctxt' = log2_table_size ctxt \<and>
     current_resources ctxt' = current_resources ctxt \<and>
     (exhausted ctxt \<longrightarrow> exhausted ctxt') \<and>
     (case table ctxt of
        None \<Rightarrow> table ctxt' = None
      | Some tb \<Rightarrow> (\<exists>tb'. table ctxt' = Some tb' \<and> (\<forall>h. \<exists>new. tb' h = new @ tb h)))"

text \<open>The key that an entry holds, and tables where no bucket holds a key twice.\<close>

definition key_of ::
  "Table_connector \<Rightarrow> int \<times> int \<times> conn_ref option \<times> conn_ref option \<times> int" where
  "key_of t = (tc_lw t, tc_rw t, tc_le t, tc_re t, tc_cost t)"

definition distinct_keys :: "count_context \<Rightarrow> bool" where
  "distinct_keys ctxt \<longleftrightarrow> (\<forall>tb h. table ctxt = Some tb \<longrightarrow> distinct (map key_of (tb h)))"

text \<open>The entry that \<open>table_store\<close> makes for a key and a count.\<close>

definition new_entry ::
  "int \<Rightarrow> int \<Rightarrow> conn_ref option \<Rightarrow> conn_ref option \<Rightarrow> int \<Rightarrow> int \<Rightarrow> Table_connector" where
  "new_entry lw rw le re cost count =
     \<lparr>tc_lw = to_short lw, tc_rw = to_short rw, tc_le = le, tc_re = re,
      tc_cost = to_ushort cost, tc_count = count\<rparr>"

text \<open>
  What a frame of \<open>do_count\<close> does between the store of its tentative entry and the
  store of its result: the value it is about to return, and the context at that point.
\<close>

definition count_body ::
  "environment \<Rightarrow> counting \<Rightarrow> count_context \<Rightarrow> int \<Rightarrow> int \<Rightarrow> conn_ref option \<Rightarrow> conn_ref option
     \<Rightarrow> int \<Rightarrow> (int \<times> count_context) option" where
  "count_body X rec ctxt1 lw rw le re null_count =
     (if rw = 1 + lw
      then (if le = None \<and> re = None \<and> null_count = 0 then Some (1, ctxt1) else Some (0, ctxt1))
      else if le = None \<and> re = None
      then (if \<not> islands_ok ctxt1 \<and> lw \<noteq> - 1
            then do {
              q \<leftarrow> c_div (to_int ((rw - lw - 1) + null_block ctxt1 - 1)) (null_block ctxt1);
              if null_count = q then Some (1, ctxt1) else Some (0, ctxt1) }
            else if null_count = 0
            then Some (0, ctxt1)
            else do {
              ds \<leftarrow> word_disjuncts ctxt1 (lw + 1);
              (tot, ctxt2) \<leftarrow> null_loop rec (lw + 1) rw null_count ds 0 ctxt1;
              (x, ctxt3) \<leftarrow> rec ctxt2 (lw + 1) rw None None (null_count - 1);
              tot1 \<leftarrow> s64_add tot x;
              Some (tot1, ctxt3) })
      else
        (let start_word = (case le of None \<Rightarrow> lw + 1 | Some a \<Rightarrow> word (conn X a));
             end_word = (case re of None \<Rightarrow> rw | Some b \<Rightarrow> word (conn X b) + 1)
         in do {
           (r, ctxt2) \<leftarrow>
             for_loop
               (\<lambda>w. for_loop
                  (\<lambda>d. for_loop
                     (\<lambda>lcost. count_split X rec lw rw le re null_count w d lcost)
                     [0..null_count])
                  (form_match_list X w le lw re rw))
               [start_word..end_word - 1] 0 ctxt1;
           case r of
             Returned v \<Rightarrow> Some (v, ctxt2)
           | Running tot \<Rightarrow> Some (tot, ctxt2) }))"

text \<open>A counting function under which a relation between contexts holds at every call.\<close>

definition preserves :: "(count_context \<Rightarrow> count_context \<Rightarrow> bool) \<Rightarrow> counting \<Rightarrow> bool" where
  "preserves R cnt \<longleftrightarrow> (\<forall>c lw rw le re n v c'. cnt c lw rw le re n = Some (v, c') \<longrightarrow> R c c')"




text \<open>
  The parser with a resource budget that is never used up: its counts are the exact
  ones.
\<close>

definition exact :: "environment \<Rightarrow> environment" where
  "exact X = X\<lparr>resources_exhausted := \<lambda>r m. False\<rparr>"

text \<open>No entry of the table holds a negative count.\<close>

definition counts_nonneg :: "count_context \<Rightarrow> bool" where
  "counts_nonneg s \<longleftrightarrow> (\<forall>t e. entry_at s t = Some e \<longrightarrow> 0 \<le> tc_count e)"

text \<open>
  \<open>below X sA sB\<close>: whatever count the table of \<open>sB\<close> gives for a key is at least
  0 and at most the count that the table of \<open>sA\<close> gives for it, and is 0 for a key that
  the table of \<open>sA\<close> does not hold.
\<close>

definition below :: "environment \<Rightarrow> count_context \<Rightarrow> count_context \<Rightarrow> bool" where
  "below X sA sB \<longleftrightarrow>
     (\<forall>lw rw le re cost b.
        lookup_count X sB lw rw le re cost = Some b \<longrightarrow>
        0 \<le> b \<and>
        (case lookup_count X sA lw rw le re cost of None \<Rightarrow> b = 0 | Some a \<Rightarrow> b \<le> a))"

text \<open>
  \<open>behind X sA sB\<close> relates a context \<open>sA\<close> of the exact count to the context \<open>sB\<close> of
  a count under a budget, at corresponding points of the two runs: both count the same
  sentence with the same configuration; \<open>sA\<close> is not exhausted and holds no negative
  count; the table of \<open>sB\<close> is below that of \<open>sA\<close>; and as long as \<open>sB\<close> is not exhausted
  the two runs have done the same, so the tables and clocks are equal.
\<close>

definition behind :: "environment \<Rightarrow> count_context \<Rightarrow> count_context \<Rightarrow> bool" where
  "behind X sA sB \<longleftrightarrow>
     \<not> exhausted sA \<and> counts_nonneg sA \<and> table sA \<noteq> None \<and> table sB \<noteq> None \<and>
     local_sent sB = local_sent sA \<and> null_block sB = null_block sA \<and>
     islands_ok sB = islands_ok sA \<and> log2_table_size sB = log2_table_size sA \<and>
     below X sA sB \<and>
     (\<not> exhausted sB \<longrightarrow>
        table sB = table sA \<and> checktimer sB = checktimer sA \<and>
        current_resources sB = current_resources sA)"

text \<open>
  A counting function that keeps an invariant of the context and returns no negative
  count.
\<close>

definition inv_count :: "(count_context \<Rightarrow> bool) \<Rightarrow> counting \<Rightarrow> bool" where
  "inv_count I cnt \<longleftrightarrow>
     (\<forall>c lw rw le re n v c'. I c \<longrightarrow> cnt c lw rw le re n = Some (v, c') \<longrightarrow> I c' \<and> 0 \<le> v)"

text \<open>
  A loop step that keeps an invariant of the context, never lowers \<open>total\<close>, keeps it
  at most \<open>INT_MAX\<close>, and returns nothing but \<open>INT_MAX\<close>.
\<close>

definition progress_ok :: "int \<Rightarrow> progress \<Rightarrow> bool" where
  "progress_ok tot r \<longleftrightarrow>
     (case r of Running t \<Rightarrow> tot \<le> t \<and> t \<le> INT_MAX | Returned v \<Rightarrow> v = INT_MAX)"

definition step_ok ::
  "(count_context \<Rightarrow> bool)
     \<Rightarrow> ('a \<Rightarrow> int \<Rightarrow> count_context \<Rightarrow> (progress \<times> count_context) option) \<Rightarrow> bool" where
  "step_ok I step \<longleftrightarrow>
     (\<forall>x tot c r c'. I c \<longrightarrow> 0 \<le> tot \<longrightarrow> tot \<le> INT_MAX \<longrightarrow> step x tot c = Some (r, c') \<longrightarrow>
        I c' \<and> progress_ok tot r)"

text \<open>
  Two counting functions, the first run on the exact parser: called with the same key in
  contexts where the second is behind the first, they leave such contexts, and the count
  of the second is at least 0 and at most that of the first, and the same if the second
  run is still not exhausted. This is asked only of calls after which no bucket holds a
  key twice.
\<close>

definition count_sim :: "environment \<Rightarrow> counting \<Rightarrow> counting \<Rightarrow> bool" where
  "count_sim X cntA cntB \<longleftrightarrow>
     (\<forall>sA sB lw rw le re n a sA' b sB'.
        behind X sA sB \<longrightarrow> cntA sA lw rw le re n = Some (a, sA') \<longrightarrow>
        cntB sB lw rw le re n = Some (b, sB') \<longrightarrow> distinct_keys sA' \<longrightarrow> distinct_keys sB' \<longrightarrow>
        behind X sA' sB' \<and> 0 \<le> b \<and> b \<le> a \<and> (\<not> exhausted sB' \<longrightarrow> b = a))"

text \<open>
  With that, what each of the two does alone: both only add to the table; the first
  leaves the context not exhausted and without a negative count; the second, once
  exhausted, stays behind any context it was behind.
\<close>

definition count_pair :: "environment \<Rightarrow> counting \<Rightarrow> counting \<Rightarrow> bool" where
  "count_pair X cntA cntB \<longleftrightarrow>
     count_sim X cntA cntB \<and> preserves extends cntA \<and> preserves extends cntB \<and>
     inv_count (\<lambda>s. \<not> exhausted s \<and> counts_nonneg s) cntA \<and>
     (\<forall>sA. inv_count (\<lambda>s. exhausted s \<and> behind X sA s) cntB)"

text \<open>The same for the steps of a loop.\<close>

definition progress_sim :: "progress \<Rightarrow> progress \<Rightarrow> bool" where
  "progress_sim rA rB \<longleftrightarrow>
     (case rA of
        Running a \<Rightarrow> (case rB of Running b \<Rightarrow> 0 \<le> b \<and> b \<le> a \<and> a \<le> INT_MAX | Returned b \<Rightarrow> False)
      | Returned a \<Rightarrow>
          a = INT_MAX \<and>
          (case rB of Running b \<Rightarrow> 0 \<le> b \<and> b \<le> INT_MAX | Returned b \<Rightarrow> b = INT_MAX))"

definition step_sim ::
  "environment \<Rightarrow> ('a \<Rightarrow> int \<Rightarrow> count_context \<Rightarrow> (progress \<times> count_context) option)
     \<Rightarrow> ('a \<Rightarrow> int \<Rightarrow> count_context \<Rightarrow> (progress \<times> count_context) option) \<Rightarrow> bool" where
  "step_sim X stepA stepB \<longleftrightarrow>
     (\<forall>x totA totB sA sB rA sA' rB sB'.
        behind X sA sB \<longrightarrow> 0 \<le> totB \<longrightarrow> totB \<le> totA \<longrightarrow> totA \<le> INT_MAX \<longrightarrow>
        (\<not> exhausted sB \<longrightarrow> totB = totA) \<longrightarrow>
        stepA x totA sA = Some (rA, sA') \<longrightarrow> stepB x totB sB = Some (rB, sB') \<longrightarrow>
        distinct_keys sA' \<longrightarrow> distinct_keys sB' \<longrightarrow>
        behind X sA' sB' \<and> progress_sim rA rB \<and> (\<not> exhausted sB' \<longrightarrow> rB = rA))"

definition step_pair ::
  "environment \<Rightarrow> ('a \<Rightarrow> int \<Rightarrow> count_context \<Rightarrow> (progress \<times> count_context) option)
     \<Rightarrow> ('a \<Rightarrow> int \<Rightarrow> count_context \<Rightarrow> (progress \<times> count_context) option) \<Rightarrow> bool" where
  "step_pair X stepA stepB \<longleftrightarrow>
     step_sim X stepA stepB \<and>
     (\<forall>x tot c r c'. stepA x tot c = Some (r, c') \<longrightarrow> extends c c') \<and>
     (\<forall>x tot c r c'. stepB x tot c = Some (r, c') \<longrightarrow> extends c c') \<and>
     (\<forall>sA. step_ok (\<lambda>s. exhausted s \<and> behind X sA s) stepB)"




definition sentence_fits :: "count_context \<Rightarrow> bool" where
  "sentence_fits s \<longleftrightarrow> (case local_sent s of None \<Rightarrow> True | Some ws \<Rightarrow> length ws \<le> 32767)"

text \<open>
  A context to count from: no bucket of the table holds a key twice and the sentence
  fits. A counting function that, called with a key that fits, leaves such a context.
\<close>

definition table_ok :: "count_context \<Rightarrow> bool" where
  "table_ok s \<longleftrightarrow> distinct_keys s \<and> sentence_fits s"


subsection \<open>Example data\<close>

text \<open>
  A small connector arena: \<open>0\<close> is an \<open>S+\<close> on word 0, \<open>1\<close> an \<open>S-\<close> on word 1, \<open>2\<close> an
  \<open>S-\<close> with another label, \<open>3\<close> an \<open>O-\<close> on word 1.
\<close>

definition ex_connector :: "int \<Rightarrow> string \<Rightarrow> int \<Rightarrow> Connector" where
  "ex_connector l s w =
     \<lparr>label = l, string = s, multi = False, length_limit = 10, priority = THIN_priority,
      word = w, next = None\<rparr>"

definition ex_conn :: "conn_ref \<Rightarrow> Connector" where
  "ex_conn a =
     (if a = 0 then ex_connector 0 ''S'' 1
      else if a = 1 then ex_connector 0 ''S'' 0
      else if a = 2 then ex_connector 1 ''S'' 0
      else ex_connector 0 ''O'' 0)"

text \<open>
  An environment for the words \<open>ws\<close>: the match list of a word is the list of all its
  disjuncts, and the resource handle \<open>1\<close> is a budget that is used up.
\<close>

definition ex_env :: "Word list \<Rightarrow> environment" where
  "ex_env ws =
     \<lparr>conn = ex_conn,
      hash_fn = (\<lambda>lw rw le re cost. nat \<bar>lw\<bar> + 3 * nat \<bar>rw\<bar>),
      easy_match = easy_match_spec,
      form_match_list =
        (\<lambda>w le lw re rw. if 0 \<le> w \<and> w < int (length ws) then ws ! nat w else []),
      resources_exhausted = (\<lambda>r m. r = Some 1)\<rparr>"

definition ex_disjunct :: "conn_ref option \<Rightarrow> conn_ref option \<Rightarrow> Disjunct" where
  "ex_disjunct l r = \<lparr>left = l, right = r, marked = False\<rparr>"

text \<open>Two words that link (\<open>S+\<close>, \<open>S-\<close>), and two that do not (\<open>S+\<close>, \<open>O-\<close>).\<close>

definition linked_words :: "Word list" where
  "linked_words = [[ex_disjunct None (Some 0)], [ex_disjunct (Some 1) None]]"

definition unlinked_words :: "Word list" where
  "unlinked_words = [[ex_disjunct None (Some 0)], [ex_disjunct (Some 3) None]]"

definition ex_sentence :: "Word list \<Rightarrow> Sentence" where
  "ex_sentence ws = \<lparr>sent_word = ws, sent_length = int (length ws)\<rparr>"

text \<open>The two linked words followed by a word whose only disjunct has no connectors.\<close>

definition three_words :: "Word list" where
  "three_words = linked_words @ [[ex_disjunct None None]]"

text \<open>Thirty-two words, each with one disjunct that has no connectors.\<close>

definition null_words :: "Word list" where
  "null_words = replicate 32 [ex_disjunct None None]"

definition ex_options :: "bool \<Rightarrow> Resources \<Rightarrow> Parse_Options" where
  "ex_options islands r = \<lparr>opt_islands_ok = islands, opt_resources = Some r\<rparr>"

text \<open>A fresh context whose \<open>exhausted\<close> flag is set.\<close>

definition ex_exhausted_context :: count_context where
  "ex_exhausted_context = (alloc_count_context 2)\<lparr>null_block := 1, exhausted := True\<rparr>"

text \<open>The context that \<open>do_parse\<close> prepares for the words \<open>ws\<close>, islands disallowed.\<close>

definition ex_context :: "Word list \<Rightarrow> count_context" where
  "ex_context ws = (alloc_count_context (length ws))\<lparr>local_sent := Some ws, null_block := 1\<rparr>"

section \<open>Properties\<close>

subsection \<open>Evaluation\<close>

lemma bind_weak_cong: "m = m' \<Longrightarrow> Option.bind m f = Option.bind m' f"
  by simp

lemma do_count_numeral:
  "do_count X (numeral k) = do_count_frame X (do_count X (pred_numeral k))"
  by (simp add: numeral_eq_Suc)

lemmas model_defs =
  do_parse_def do_count_frame_def find_table_pointer_def table_store_def table_lookup_def
  pseudocount_def count_split_def pseudo_pass_def real_pass_def side_count_def side_match_def
  add_if_def do_match_def easy_match_spec_def word_disjuncts_def c_div_def s64_add_def
  s64_mul_def in_s64_def set_count_def entry_at_def pair_hash_def same_key_def to_short_def
  to_ushort_def to_int_def INT_MAX_def alloc_count_context_def init_table_def free_table_def isupper_def
  lookup_ptr_def lookup_count_def

lemmas ex_defs =
  ex_env_def ex_conn_def ex_connector_def ex_disjunct_def linked_words_def unlinked_words_def
  ex_sentence_def null_words_def ex_options_def ex_exhausted_context_def ex_context_def
  three_words_def

subsection \<open>The memo table\<close>

lemma find_table_pointer_hit:
  "lookup_ptr X ctxt lw rw le re cost = Some t \<Longrightarrow>
   find_table_pointer X ctxt lw rw le re cost = Some (Some t, ctxt)"
  by (auto simp: lookup_ptr_def find_table_pointer_def Let_def split: option.splits)

lemma find_table_pointer_miss:
  "table ctxt = Some tb \<Longrightarrow> lookup_ptr X ctxt lw rw le re cost = None \<Longrightarrow> \<not> exhausting X ctxt \<Longrightarrow>
   find_table_pointer X ctxt lw rw le re cost = Some (None, ctxt\<lparr>checktimer := to_int (checktimer ctxt + 1)\<rparr>)"
  by (auto simp: lookup_ptr_def find_table_pointer_def exhausting_def Let_def split: option.splits)

lemma find_table_pointer_exhausting:
  "table ctxt = Some tb \<Longrightarrow> lookup_ptr X ctxt lw rw le re cost = None \<Longrightarrow> exhausting X ctxt \<Longrightarrow>
   find_table_pointer X ctxt lw rw le re cost =
     map_option (\<lambda>(t, c). (Some t, c))
       (table_store X (ctxt\<lparr>checktimer := to_int (checktimer ctxt + 1), exhausted := True\<rparr>) lw rw le re cost 0)"
  by (auto simp: lookup_ptr_def find_table_pointer_def exhausting_def table_store_def Let_def split: option.splits)

lemma chain_at_None: "length c \<le> p \<Longrightarrow> chain_at p c = None"
  by (induction c) auto

lemma chain_at_append: "p < length c \<Longrightarrow> chain_at p (new @ c) = chain_at p c"
  by (induction new) auto

lemma length_chain_set_count [simp]: "length (chain_set_count p v c) = length c"
  by (induction c) auto

lemma chain_set_count_append:
  "length c \<le> p \<Longrightarrow> chain_set_count p v (new @ c) = chain_set_count (p - length c) v new @ c"
proof (induction new)
  case Nil
  then show ?case by (induction c) auto
next
  case (Cons a new)
  then show ?case by auto
qed

lemma chain_at_append_new:
  "length c \<le> p \<Longrightarrow> chain_at p (new @ c) = chain_at (p - length c) new"
  by (induction new) (auto simp: chain_at_None)

lemma extends_refl: "extends c c"
  by (auto simp: extends_def split: option.splits)

lemma extends_table:
  "extends a b \<Longrightarrow> table a = Some ta \<Longrightarrow>
   \<exists>tb. table b = Some tb \<and> (\<forall>h. \<exists>new. tb h = new @ ta h)"
  by (auto simp: extends_def)

lemma extends_trans:
  assumes "extends a b" and "extends b c"
  shows "extends a c"
proof (cases "table a")
  case None
  then show ?thesis using assms by (auto simp: extends_def)
next
  case (Some ta)
  from extends_table[OF assms(1) Some] obtain tb where
    tb: "table b = Some tb" and ab: "\<forall>h. \<exists>new. tb h = new @ ta h" by blast
  from extends_table[OF assms(2) tb] obtain tc where
    tc: "table c = Some tc" and bc: "\<forall>h. \<exists>new. tc h = new @ tb h" by blast
  have "\<exists>new. tc h = new @ ta h" for h
  proof -
    from ab obtain n1 where "tb h = n1 @ ta h" by blast
    moreover from bc obtain n2 where "tc h = n2 @ tb h" by blast
    ultimately have "tc h = (n2 @ n1) @ ta h" by simp
    then show ?thesis by blast
  qed
  then show ?thesis using assms Some tc by (auto simp: extends_def)
qed

lemma table_store_extends:
  "table_store X s lw rw le re cost v = Some (t, s') \<Longrightarrow> extends s s'"
  by (auto simp: table_store_def extends_def Let_def split: option.splits)

lemma find_table_pointer_extends:
  "find_table_pointer X s lw rw le re cost = Some (r, s') \<Longrightarrow> extends s s'"
  by (auto simp: find_table_pointer_def extends_def table_store_def Let_def split: option.splits if_splits)

lemma set_count_extends_fresh:
  assumes "table_store X s1 lw rw le re cost c = Some (t, s2)" and "extends s2 s"
  shows "extends s1 (set_count s t v)"
proof -
  from assms(1) obtain tb where tb: "table s1 = Some tb"
    and t: "t = (pair_hash X (log2_table_size s1) lw rw le re cost, length (tb (pair_hash X (log2_table_size s1) lw rw le re cost)))"
    by (auto simp: table_store_def Let_def split: option.splits)
  have e1: "extends s1 s2" using assms(1) by (rule table_store_extends)
  have e: "extends s1 s" using e1 assms(2) by (rule extends_trans)
  then obtain tb' where tb': "table s = Some tb'" and suf: "\<forall>h. \<exists>new. tb' h = new @ tb h"
    using tb by (auto simp: extends_def)
  let ?h = "fst t"
  have "\<exists>new. (tb'(?h := chain_set_count (snd t) v (tb' ?h))) h = new @ tb h" for h
  proof (cases "h = ?h")
    case True
    from suf obtain new where n: "tb' ?h = new @ tb ?h" by blast
    have "length (tb ?h) \<le> snd t" using t by simp
    then have "chain_set_count (snd t) v (new @ tb ?h)
                 = chain_set_count (snd t - length (tb ?h)) v new @ tb ?h"
      by (rule chain_set_count_append)
    then show ?thesis using True n by auto
  next
    case False
    then show ?thesis using suf by auto
  qed
  then show ?thesis
    using e tb tb' by (auto simp: extends_def set_count_def)
qed

lemma table_lookup_extends:
  "table_lookup X s lw rw le re cost = Some (v, s') \<Longrightarrow> extends s s'"
  by (auto simp: table_lookup_def split: option.splits Option.bind_splits dest: find_table_pointer_extends)

lemma pseudocount_extends:
  "pseudocount X s lw rw le re cost = Some (v, s') \<Longrightarrow> extends s s'"
  by (auto simp: pseudocount_def split: Option.bind_splits if_splits dest: table_lookup_extends)

lemma preserves_pseudocount: "preserves extends (pseudocount X)"
  by (auto simp: preserves_def dest: pseudocount_extends)

lemma add_if_extends:
  assumes "\<And>c p c'. f c = Some (p, c') \<Longrightarrow> extends c c'"
    and "add_if b f r = Some r'"
  shows "extends (snd r) (snd r')"
  using assms
  by (auto simp: add_if_def extends_refl split: if_splits Option.bind_splits)

lemma side_count_extends:
  assumes "preserves extends cnt" and "side_count X cnt s aw bw m cost = Some (v, s')"
  shows "extends s s'"
proof (cases m)
  case None
  then show ?thesis using assms(2) by (simp add: side_count_def extends_refl)
next
  case (Some ab)
  obtain a b where ab: "ab = (a, b)" by (cases ab)
  have P: "\<And>c lw rw le re n p c'. cnt c lw rw le re n = Some (p, c') \<Longrightarrow> extends c c'"
    using assms(1) by (auto simp: preserves_def)
  from assms(2) Some ab obtain r1 r2 r3 where
    1: "cnt s aw bw (next (conn X a)) (next (conn X b)) cost = Some r1"
    and 2: "add_if (multi (conn X a)) (\<lambda>c. cnt c aw bw (Some a) (next (conn X b)) cost) r1 = Some r2"
    and 3: "add_if (multi (conn X b)) (\<lambda>c. cnt c aw bw (next (conn X a)) (Some b) cost) r2 = Some r3"
    and 4: "add_if (multi (conn X a) \<and> multi (conn X b)) (\<lambda>c. cnt c aw bw (Some a) (Some b) cost) r3 = Some (v, s')"
    by (auto simp: side_count_def split: Option.bind_splits)
  have "extends s (snd r1)" using 1 P by (cases r1) auto
  moreover have "extends (snd r1) (snd r2)" using 2 P by (rule add_if_extends[rotated]) 
  moreover have "extends (snd r2) (snd r3)" using 3 P by (rule add_if_extends[rotated])
  moreover have "extends (snd r3) (snd (v, s'))" using 4 P by (rule add_if_extends[rotated])
  ultimately show ?thesis by (auto intro: extends_trans)
qed


lemma preservesD: "preserves R cnt \<Longrightarrow> cnt c lw rw le re n = Some (v, c') \<Longrightarrow> R c c'"
  by (auto simp: preserves_def)

lemma pseudo_pass_extends:
  assumes "pseudo_pass X s lw rw le re w d Lm Rm lcost rcost = Some (v, s')"
  shows "extends s s'"
proof -
  note sc = side_count_extends[OF preserves_pseudocount]
  from assms show ?thesis
    unfolding pseudo_pass_def
    by (auto split: Option.bind_splits if_splits
             dest!: sc pseudocount_extends; blast intro: extends_trans)
qed

lemma real_pass_extends:
  assumes "preserves extends rec"
    and "real_pass X rec s lw rw le re w d Lm Rm lcost rcost tot = Some (v, s')"
  shows "extends s s'"
proof -
  note sc = side_count_extends[OF assms(1)]
  note r = preservesD[OF assms(1)]
  from assms(2) show ?thesis
    unfolding real_pass_def
    by (auto split: Option.bind_splits if_splits
             dest!: sc r; blast intro: extends_trans)
qed

lemma count_split_extends:
  assumes "preserves extends rec"
    and "count_split X rec lw rw le re nc w d lcost tot s = Some (r, s')"
  shows "extends s s'"
  using assms(2) unfolding count_split_def Let_def
  by (auto split: Option.bind_splits if_splits
           dest!: pseudo_pass_extends real_pass_extends[OF assms(1)]; blast intro: extends_trans)

lemma for_loop_extends:
  assumes "\<And>x tot c r c'. step x tot c = Some (r, c') \<Longrightarrow> extends c c'"
    and "for_loop step xs tot s = Some (r, s')"
  shows "extends s s'"
  using assms(2)
proof (induction xs arbitrary: tot s)
  case Nil
  then show ?case by (simp add: extends_refl)
next
  case (Cons x xs)
  from Cons.prems obtain r1 s1 where 1: "step x tot s = Some (r1, s1)"
    and 2: "(case r1 of Returned v \<Rightarrow> Some (Returned v, s1)
             | Running tot1 \<Rightarrow> for_loop step xs tot1 s1) = Some (r, s')"
    by (auto split: Option.bind_splits)
  have e1: "extends s s1" using 1 by (rule assms(1))
  show ?case
  proof (cases r1)
    case (Running t1)
    with 2 have "for_loop step xs t1 s1 = Some (r, s')" by simp
    then have "extends s1 s'" by (rule Cons.IH)
    with e1 show ?thesis by (rule extends_trans)
  next
    case (Returned v)
    with 2 e1 show ?thesis by simp
  qed
qed

lemma null_loop_extends:
  assumes "preserves extends rec"
    and "null_loop rec w rw nc ds tot s = Some (v, s')"
  shows "extends s s'"
  using assms(2)
proof (induction ds arbitrary: tot s)
  case Nil
  then show ?case by (simp add: extends_refl)
next
  case (Cons d ds)
  show ?case
  proof (cases "left d = None")
    case True
    with Cons.prems obtain x s1 t1 where 1: "rec s w rw (right d) None (nc - 1) = Some (x, s1)"
      and 2: "null_loop rec w rw nc ds t1 s1 = Some (v, s')"
      by (auto split: Option.bind_splits)
    from preservesD[OF assms(1) 1] Cons.IH[OF 2] show ?thesis by (rule extends_trans)
  next
    case False
    with Cons.prems Cons.IH show ?thesis by simp
  qed
qed

lemma loops_extends:
  assumes "preserves extends rec"
    and "for_loop
           (\<lambda>w. for_loop
              (\<lambda>d. for_loop (\<lambda>lcost. count_split X rec lw rw le re nc w d lcost) costs)
              (ml w))
           ws tot s = Some (r, s')"
  shows "extends s s'"
  by (rule for_loop_extends[OF _ assms(2)], rule for_loop_extends, rule for_loop_extends,
      rule count_split_extends[OF assms(1)])

lemma do_count_frame_negative:
  "nc < 0 \<Longrightarrow> do_count_frame X rec s lw rw le re nc = Some (0, s)"
  by (simp add: do_count_frame_def)

lemma do_count_frame_hit:
  assumes "0 \<le> nc" and "find_table_pointer X s lw rw le re nc = Some (Some t, s0)"
  shows "do_count_frame X rec s lw rw le re nc = map_option (\<lambda>e. (tc_count e, s0)) (entry_at s0 t)"
  using assms by (cases "entry_at s0 t") (simp_all add: do_count_frame_def)

lemma map_option_bind:
  "map_option f (Option.bind m g) = Option.bind m (\<lambda>x. map_option f (g x))"
  by (cases m) auto

lemma do_count_frame_miss:
  assumes "0 \<le> nc" and "find_table_pointer X s lw rw le re nc = Some (None, s0)"
    and "table_store X s0 lw rw le re nc 0 = Some (t, s1)"
  shows "do_count_frame X rec s lw rw le re nc =
           map_option (\<lambda>(v, s2). (v, set_count s2 t v)) (count_body X rec s1 lw rw le re nc)"
proof -
  have "do_count_frame X rec s lw rw le re nc = 
       (if rw = 1 + lw
            then (if le = None \<and> re = None \<and> nc = 0
                  then Some (1, set_count s1 t 1)
                  else Some (0, set_count s1 t 0))
            else if le = None \<and> re = None
            then (if \<not> islands_ok s1 \<and> lw \<noteq> - 1
                  then do {
                    q \<leftarrow> c_div (to_int ((rw - lw - 1) + null_block s1 - 1)) (null_block s1);
                    if nc = q
                    then Some (1, set_count s1 t 1)
                    else Some (0, set_count s1 t 0) }
                  else if nc = 0
                  then Some (0, set_count s1 t 0)
                  else do {
                    ds \<leftarrow> word_disjuncts s1 (lw + 1);
                    (tot, ctxt2) \<leftarrow> null_loop rec (lw + 1) rw nc ds 0 s1;
                    (x, ctxt3) \<leftarrow> rec ctxt2 (lw + 1) rw None None (nc - 1);
                    tot1 \<leftarrow> s64_add tot x;
                    Some (tot1, set_count ctxt3 t tot1) })
            else
              (let start_word = (case le of None \<Rightarrow> lw + 1 | Some a \<Rightarrow> word (conn X a));
                   end_word = (case re of None \<Rightarrow> rw | Some b \<Rightarrow> word (conn X b) + 1)
               in do {
                 (r, ctxt2) \<leftarrow>
                   for_loop
                     (\<lambda>w. for_loop
                        (\<lambda>d. for_loop
                           (\<lambda>lcost. count_split X rec lw rw le re nc w d lcost)
                           [0..nc])
                        (form_match_list X w le lw re rw))
                     [start_word..end_word - 1] 0 s1;
                 case r of
                   Returned v \<Rightarrow> Some (v, set_count ctxt2 t v)
                 | Running tot \<Rightarrow> Some (tot, set_count ctxt2 t tot) }))"
    using assms by (simp add: do_count_frame_def)
  also have "\<dots> = map_option (\<lambda>(v, s2). (v, set_count s2 t v)) (count_body X rec s1 lw rw le re nc)"
    unfolding count_body_def Let_def
    by (simp add: map_option_bind if_distrib[of "map_option _"] split_def
          progress.case_distrib[of "map_option _"]
          cong: if_cong progress.case_cong)
  finally show ?thesis .
qed


lemma count_body_adjacent:
  "rw = 1 + lw \<Longrightarrow> count_body X rec s lw rw le re nc =
     Some (if le = None \<and> re = None \<and> nc = 0 then 1 else 0, s)"
  by (simp add: count_body_def)

lemma count_body_no_islands:
  "rw \<noteq> 1 + lw \<Longrightarrow> \<not> islands_ok s \<Longrightarrow> lw \<noteq> - 1 \<Longrightarrow>
   count_body X rec s lw rw None None nc =
     map_option (\<lambda>q. (if nc = q then 1 else 0, s))
       (c_div (to_int ((rw - lw - 1) + null_block s - 1)) (null_block s))"
  by (cases "c_div (to_int ((rw - lw - 1) + null_block s - 1)) (null_block s)")
     (simp_all add: count_body_def)

lemma count_body_null_zero:
  "rw \<noteq> 1 + lw \<Longrightarrow> islands_ok s \<or> lw = - 1 \<Longrightarrow>
   count_body X rec s lw rw None None 0 = Some (0, s)"
  by (auto simp add: count_body_def)

lemma count_body_null:
  "rw \<noteq> 1 + lw \<Longrightarrow> islands_ok s \<or> lw = - 1 \<Longrightarrow> nc \<noteq> 0 \<Longrightarrow>
   count_body X rec s lw rw None None nc =
     do {
       ds \<leftarrow> word_disjuncts s (lw + 1);
       (tot, ctxt2) \<leftarrow> null_loop rec (lw + 1) rw nc ds 0 s;
       (x, ctxt3) \<leftarrow> rec ctxt2 (lw + 1) rw None None (nc - 1);
       tot1 \<leftarrow> s64_add tot x;
       Some (tot1, ctxt3) }"
  by (auto simp add: count_body_def)

lemma count_body_general:
  "rw \<noteq> 1 + lw \<Longrightarrow> le \<noteq> None \<or> re \<noteq> None \<Longrightarrow>
   count_body X rec s lw rw le re nc =
     do {
       (r, ctxt2) \<leftarrow>
         for_loop
           (\<lambda>w. for_loop
              (\<lambda>d. for_loop
                 (\<lambda>lcost. count_split X rec lw rw le re nc w d lcost)
                 [0..nc])
              (form_match_list X w le lw re rw))
           [(case le of None \<Rightarrow> lw + 1 | Some a \<Rightarrow> word (conn X a))..
            (case re of None \<Rightarrow> rw | Some b \<Rightarrow> word (conn X b) + 1) - 1] 0 s;
       case r of
         Returned v \<Rightarrow> Some (v, ctxt2)
       | Running tot \<Rightarrow> Some (tot, ctxt2) }"
  by (auto simp add: count_body_def Let_def)

lemma count_body_extends:
  assumes "preserves extends rec"
    and "count_body X rec s lw rw le re nc = Some (v, s')"
  shows "extends s s'"
proof -
  consider (adj) "rw = 1 + lw"
    | (noisl) "rw \<noteq> 1 + lw" "le = None" "re = None" "\<not> islands_ok s" "lw \<noteq> - 1"
    | (zero) "rw \<noteq> 1 + lw" "le = None" "re = None" "islands_ok s \<or> lw = - 1" "nc = 0"
    | (null) "rw \<noteq> 1 + lw" "le = None" "re = None" "islands_ok s \<or> lw = - 1" "nc \<noteq> 0"
    | (gen) "rw \<noteq> 1 + lw" "le \<noteq> None \<or> re \<noteq> None"
    by blast
  then show ?thesis
  proof cases
    case adj
    with assms(2) show ?thesis by (simp add: count_body_adjacent extends_refl)
  next
    case noisl
    with assms(2) show ?thesis by (auto simp: count_body_no_islands extends_refl)
  next
    case zero
    with assms(2) show ?thesis by (simp add: count_body_null_zero extends_refl)
  next
    case null
    from assms(2) obtain ds tot s2 x where
      1: "null_loop rec (lw + 1) rw nc ds 0 s = Some (tot, s2)"
      and 2: "rec s2 (lw + 1) rw None None (nc - 1) = Some (x, s')"
      unfolding null(2,3) count_body_null[OF null(1,4,5)]
      by (auto split: Option.bind_splits)
    from null_loop_extends[OF assms(1) 1] preservesD[OF assms(1) 2]
    show ?thesis by (rule extends_trans)
  next
    case gen
    from assms(2) obtain r where
      "for_loop
           (\<lambda>w. for_loop
              (\<lambda>d. for_loop
                 (\<lambda>lcost. count_split X rec lw rw le re nc w d lcost)
                 [0..nc])
              (form_match_list X w le lw re rw))
           [(case le of None \<Rightarrow> lw + 1 | Some a \<Rightarrow> word (conn X a))..
            (case re of None \<Rightarrow> rw | Some b \<Rightarrow> word (conn X b) + 1) - 1] 0 s = Some (r, s')"
      unfolding count_body_general[OF gen]
      by (auto split: Option.bind_splits progress.splits)
    then show ?thesis by (rule loops_extends[OF assms(1)])
  qed
qed

lemma table_store_Some:
  "table s = Some tb \<Longrightarrow> \<exists>t s'. table_store X s lw rw le re cost v = Some (t, s')"
  by (simp add: table_store_def Let_def)

lemma find_table_pointer_table:
  "find_table_pointer X s lw rw le re cost = Some (r, s') \<Longrightarrow> \<exists>tb. table s' = Some tb"
  by (auto simp: find_table_pointer_def table_store_def Let_def split: option.splits if_splits)

lemma do_count_frame_extends:
  assumes "preserves extends rec"
    and "do_count_frame X rec s lw rw le re nc = Some (v, s')"
  shows "extends s s'"
proof (cases "nc < 0")
  case True
  then show ?thesis using assms(2) by (simp add: do_count_frame_def extends_refl)
next
  case False
  then have nc: "0 \<le> nc" by simp
  with assms(2) obtain found s0 where f: "find_table_pointer X s lw rw le re nc = Some (found, s0)"
    by (auto simp: do_count_frame_def split: Option.bind_splits)
  have e0: "extends s s0" using f by (rule find_table_pointer_extends)
  show ?thesis
  proof (cases found)
    case (Some t)
    with do_count_frame_hit[OF nc f[unfolded Some]] assms(2) have "s' = s0" by auto
    with e0 show ?thesis by simp
  next
    case None
    from find_table_pointer_table[OF f] obtain tb where "table s0 = Some tb" by blast
    from table_store_Some[OF this] obtain t s1 where
      st: "table_store X s0 lw rw le re nc 0 = Some (t, s1)" by blast
    from do_count_frame_miss[OF nc f[unfolded None] st] assms(2)
    obtain s2 where b: "count_body X rec s1 lw rw le re nc = Some (v, s2)"
      and s': "s' = set_count s2 t v" by auto
    have "extends s1 s2" using assms(1) b by (rule count_body_extends)
    with st have "extends s0 s'" unfolding s' by (rule set_count_extends_fresh)
    with e0 show ?thesis by (rule extends_trans)
  qed
qed

lemma do_count_extends:
  "do_count X fuel s lw rw le re nc = Some (v, s') \<Longrightarrow> extends s s'"
proof (induction fuel arbitrary: s lw rw le re nc v s')
  case 0
  then show ?case by simp
next
  case (Suc fuel)
  have "preserves extends (do_count X fuel)"
    unfolding preserves_def using Suc.IH by blast
  then show ?case using Suc.prems by (simp add: do_count_frame_extends)
qed

subsection \<open>The matcher\<close>

lemma do_match_fat_label:
  "label (conn X a) \<noteq> label (conn X b) \<Longrightarrow> do_match_fat X effective_dist a b aw bw = Some False"
  by (simp add: do_match_fat_def)

text \<open>
  C5. The claim: \<open>do_match\<close> returns false whenever the labels of the two connectors
  differ. The matcher compiled with \<open>USE_FAT_LINKAGES\<close> does this (lemma
  \<open>do_match_fat_label\<close>), and the comment above the other matcher says that the labels
  must match, but that matcher, the one \<open>do_count\<close> calls, never reads a label: for the
  connectors 0 and 2 of the example arena, which carry the labels 0 and 1 and the same
  string, one word apart, it answers true.
\<close>

theorem do_match_ignores_label:
  "label (conn (ex_env linked_words) 0) \<noteq> label (conn (ex_env linked_words) 2) \<and>
   do_match (ex_env linked_words) 0 2 0 1 = Some True"
  by (simp add: model_defs ex_defs)

subsection \<open>The base cases of the counter\<close>


lemma do_count_miss:
  assumes "0 \<le> nc" and "table s = Some tb" and "lookup_ptr X s lw rw le re nc = None"
    and "\<not> exhausting X s"
  shows "\<exists>t s1. table_store X (s\<lparr>checktimer := to_int (checktimer s + 1)\<rparr>) lw rw le re nc 0 = Some (t, s1) \<and>
     do_count X (Suc fuel) s lw rw le re nc =
       map_option (\<lambda>(v, s2). (v, set_count s2 t v)) (count_body X (do_count X fuel) s1 lw rw le re nc)"
proof -
  have f: "find_table_pointer X s lw rw le re nc = Some (None, s\<lparr>checktimer := to_int (checktimer s + 1)\<rparr>)"
    using assms by (simp add: find_table_pointer_miss)
  have "table (s\<lparr>checktimer := to_int (checktimer s + 1)\<rparr>) = Some tb" using assms(2) by simp
  from table_store_Some[OF this] obtain t s1 where
    st: "table_store X (s\<lparr>checktimer := to_int (checktimer s + 1)\<rparr>) lw rw le re nc 0 = Some (t, s1)" by blast
  show ?thesis using do_count_frame_miss[OF assms(1) f st] st by auto
qed

lemma c_div_pos: "0 \<le> a \<Longrightarrow> 0 < b \<Longrightarrow> c_div a b = Some (a div b)"
  by (cases "a = 0") (simp_all add: c_div_def)

lemma to_int_id: "- 2147483648 \<le> x \<Longrightarrow> x \<le> INT_MAX \<Longrightarrow> to_int x = x"
  by (simp add: to_int_def INT_MAX_def)

lemma ceiling_div_iff:
  fixes n nb q :: int
  assumes "0 < nb"
  shows "q = (n + nb - 1) div nb \<longleftrightarrow> (q - 1) * nb < n \<and> n \<le> q * nb"
proof
  assume q: "q = (n + nb - 1) div nb"
  define a where "a = n + nb - 1"
  have d: "nb * (a div nb) + a mod nb = a" by simp
  have m: "0 \<le> a mod nb" "a mod nb < nb" using assms by simp_all
  have "nb * q + a mod nb = n + nb - 1" using d q a_def by simp
  with m show "(q - 1) * nb < n \<and> n \<le> q * nb"
    by (simp add: algebra_simps)
next
  assume h: "(q - 1) * nb < n \<and> n \<le> q * nb"
  have "(n + nb - 1) div nb = q"
  proof (rule int_div_pos_eq[where r = "n + nb - 1 - q * nb"])
    show "n + nb - 1 = nb * q + (n + nb - 1 - q * nb)" by (simp add: algebra_simps)
  qed (use h assms in \<open>auto simp: algebra_simps\<close>)
  then show "q = (n + nb - 1) div nb" by simp
qed

text \<open>
  C8, as amended. A call \<open>do_count(lw, lw + 1, le, re, null_cost)\<close> on a context with a
  table, whose key is not memoized and whose miss does not find the context exhausted,
  returns 1 if \<open>le\<close> and \<open>re\<close> are both null and \<open>null_cost = 0\<close>, and 0 in every other
  case. One unit of fuel is enough.
\<close>

theorem adjacent_words_count:
  assumes "table ctxt = Some tb"
    and "lookup_ptr X ctxt lw (lw + 1) le re null_cost = None"
    and "\<not> exhausting X ctxt"
  shows "\<exists>ctxt'. do_count X (Suc fuel) ctxt lw (lw + 1) le re null_cost =
           Some (if le = None \<and> re = None \<and> null_cost = 0 then 1 else 0, ctxt')"
proof (cases "null_cost < 0")
  case True
  then show ?thesis by (simp add: do_count_frame_negative)
next
  case False
  then have "0 \<le> null_cost" by simp
  from do_count_miss[OF this assms, of fuel] show ?thesis
    by (auto simp: count_body_adjacent)
qed

theorem adjacent_words_count_witness:
  "table (alloc_count_context 2) = Some (\<lambda>i. []) \<and>
   lookup_ptr (ex_env linked_words) (alloc_count_context 2) 0 (0 + 1) None None 0 = None \<and>
   \<not> exhausting (ex_env linked_words) (alloc_count_context 2) \<and>
   (\<exists>ctxt'. do_count (ex_env linked_words) (Suc 0) (alloc_count_context 2) 0 (0 + 1) None None 0
              = Some (1, ctxt'))"
  using adjacent_words_count[of "alloc_count_context 2" "\<lambda>i. []" "ex_env linked_words" 0
      None None 0 0]
  by (simp add: lookup_ptr_def exhausting_def alloc_count_context_def init_table_def Let_def
        to_int_def)

text \<open>
  C8 as stated fails on an exhausted context: the key \<open>(0, 1, null, null, 0)\<close> is not
  memoized, both connectors are null and the cost is 0, and the call returns 0.
\<close>

theorem adjacent_words_exhausted:
  "lookup_ptr (ex_env linked_words) ex_exhausted_context 0 1 None None 0 = None \<and>
   map_option fst (do_count (ex_env linked_words) 1 ex_exhausted_context 0 1 None None 0) = Some 0"
  by (simp add: model_defs ex_defs Let_def cong: bind_weak_cong)

text \<open>
  C7, as amended. A call \<open>do_count(lw, rw, null, null, null_cost)\<close> with \<open>rw > lw + 1\<close>,
  islands disallowed and \<open>lw \<noteq> -1\<close>, on a context with a table and \<open>null_block \<ge> 1\<close>,
  where the \<open>int\<close> sum \<open>(rw - lw - 1) + null_block - 1\<close> does not exceed \<open>INT_MAX\<close>,
  whose key is not memoized and whose miss does not find the context exhausted, returns 1
  if \<open>null_cost\<close> is the ceiling of \<open>(rw - lw - 1) / null_block\<close> (the least \<open>q\<close> with
  \<open>rw - lw - 1 \<le> q * null_block\<close>), and 0 for every other \<open>null_cost\<close>.
\<close>

theorem islands_disallowed_count:
  assumes "table ctxt = Some tb"
    and "lookup_ptr X ctxt lw rw None None null_cost = None"
    and "\<not> exhausting X ctxt"
    and "lw + 1 < rw" and "\<not> islands_ok ctxt" and "lw \<noteq> - 1" and "1 \<le> null_block ctxt"
    and "(rw - lw - 1) + null_block ctxt - 1 \<le> INT_MAX"
  shows "\<exists>ctxt'. do_count X (Suc fuel) ctxt lw rw None None null_cost =
           Some (if (null_cost - 1) * null_block ctxt < rw - lw - 1 \<and>
                    rw - lw - 1 \<le> null_cost * null_block ctxt then 1 else 0, ctxt')"
proof (cases "null_cost < 0")
  case True
  have "null_cost * null_block ctxt \<le> 0"
    using True assms(7) by (simp add: mult_le_0_iff)
  with True assms(4) show ?thesis by (simp add: do_count_frame_negative)
next
  case False
  then have nc: "0 \<le> null_cost" by simp
  from do_count_miss[OF nc assms(1-3), of fuel] obtain t s1 where
    st: "table_store X (ctxt\<lparr>checktimer := to_int (checktimer ctxt + 1)\<rparr>) lw rw None None null_cost 0 = Some (t, s1)"
    and dc: "do_count X (Suc fuel) ctxt lw rw None None null_cost =
       map_option (\<lambda>(v, s2). (v, set_count s2 t v)) (count_body X (do_count X fuel) s1 lw rw None None null_cost)"
    by blast
  have e: "extends (ctxt\<lparr>checktimer := to_int (checktimer ctxt + 1)\<rparr>) s1" using st by (rule table_store_extends)
  then have i: "\<not> islands_ok s1" and nb: "null_block s1 = null_block ctxt"
    using assms(5) by (simp_all add: extends_def)
  have "to_int ((rw - lw - 1) + null_block ctxt - 1) = (rw - lw - 1) + null_block ctxt - 1"
    using assms(4,7,8) by (intro to_int_id) auto
  then have cd: "c_div (to_int ((rw - lw - 1) + null_block s1 - 1)) (null_block s1)
          = Some ((rw - lw - 1 + null_block ctxt - 1) div null_block ctxt)"
    unfolding nb using assms(4,7) by (simp add: c_div_pos)
  have ne: "rw \<noteq> 1 + lw" using assms(4) by simp
  show ?thesis
    unfolding dc count_body_no_islands[OF ne i assms(6)] cd
    using ceiling_div_iff[of "null_block ctxt" null_cost "rw - lw - 1"] assms(7)
    by auto
qed

theorem islands_disallowed_count_witness:
  "table ((alloc_count_context 2)\<lparr>null_block := 1\<rparr>) = Some (\<lambda>i. []) \<and>
   lookup_ptr (ex_env linked_words) ((alloc_count_context 2)\<lparr>null_block := 1\<rparr>) 0 2 None None 1
     = None \<and>
   \<not> exhausting (ex_env linked_words) ((alloc_count_context 2)\<lparr>null_block := 1\<rparr>) \<and>
   (2 - 0 - 1) + null_block ((alloc_count_context 2)\<lparr>null_block := 1\<rparr>) - 1 \<le> INT_MAX \<and>
   (\<exists>ctxt'. do_count (ex_env linked_words) (Suc 0) ((alloc_count_context 2)\<lparr>null_block := 1\<rparr>)
               0 2 None None 1 = Some (1, ctxt'))"
  using islands_disallowed_count[of "(alloc_count_context 2)\<lparr>null_block := 1\<rparr>" "\<lambda>i. []"
      "ex_env linked_words" 0 2 1 0]
  by (simp add: lookup_ptr_def exhausting_def alloc_count_context_def init_table_def Let_def
        to_int_def INT_MAX_def)

text \<open>
  C7 as stated fails on an exhausted context: islands are disallowed, \<open>null_block\<close> is 1
  and \<open>null_cost = 1\<close> is the ceiling of \<open>(2 - 0 - 1) / 1\<close>, and the call returns 0.
\<close>

theorem islands_disallowed_exhausted:
  "lookup_ptr (ex_env linked_words) ex_exhausted_context 0 2 None None 1 = None \<and>
   \<not> islands_ok ex_exhausted_context \<and> null_block ex_exhausted_context = 1 \<and>
   map_option fst (do_count (ex_env linked_words) 1 ex_exhausted_context 0 2 None None 1) = Some 0"
  by (simp add: model_defs ex_defs Let_def cong: bind_weak_cong)

subsection \<open>The driver\<close>




subsection \<open>Entries and their pointers\<close>

lemma find_chain_less: "find_chain lw rw le re cost c = Some p \<Longrightarrow> p < length c"
  by (induction c) (auto split: if_splits)

lemma find_chain_Some:
  "find_chain lw rw le re cost c = Some p \<Longrightarrow>
   \<exists>e. chain_at p c = Some e \<and> same_key lw rw le re cost e"
  by (induction c) (auto split: if_splits dest: find_chain_less)

lemma lookup_ptr_entry:
  "lookup_ptr X s lw rw le re cost = Some t \<Longrightarrow>
   \<exists>e. entry_at s t = Some e \<and> same_key lw rw le re cost e"
  by (auto simp: lookup_ptr_def entry_at_def Let_def split: option.splits dest: find_chain_Some)

lemma lookup_count_Some:
  "lookup_ptr X s lw rw le re cost = Some t \<Longrightarrow>
   \<exists>e. entry_at s t = Some e \<and> lookup_count X s lw rw le re cost = Some (tc_count e)"
  by (auto simp: lookup_count_def dest: lookup_ptr_entry)

lemma lookup_count_None:
  "lookup_ptr X s lw rw le re cost = None \<Longrightarrow> lookup_count X s lw rw le re cost = None"
  by (simp add: lookup_count_def)

lemma entry_at_table_store:
  "table_store X s lw rw le re cost v = Some (t, s') \<Longrightarrow>
   entry_at s' t = Some (new_entry lw rw le re cost v)"
  by (auto simp: table_store_def entry_at_def new_entry_def Let_def split: option.splits)

lemma extends_entry_at:
  assumes "extends s s'" and "entry_at s t = Some e"
  shows "entry_at s' t = Some e"
proof -
  from assms(2) obtain tb where tb: "table s = Some tb" and c: "chain_at (snd t) (tb (fst t)) = Some e"
    by (auto simp: entry_at_def split: option.splits)
  from extends_table[OF assms(1) tb] obtain tb' new where
    tb': "table s' = Some tb'" and n: "tb' (fst t) = new @ tb (fst t)" by blast
  have "snd t < length (tb (fst t))"
    using c chain_at_None[of "tb (fst t)" "snd t"] by (cases "snd t < length (tb (fst t))") auto
  then show ?thesis using tb' n c by (simp add: entry_at_def chain_at_append)
qed

lemma chain_at_set_count:
  "chain_at p c = Some e \<Longrightarrow> chain_at p (chain_set_count p v c) = Some (e\<lparr>tc_count := v\<rparr>)"
  by (induction c) (auto split: if_splits)

lemma chain_at_set_count_other:
  "q \<noteq> p \<Longrightarrow> chain_at q (chain_set_count p v c) = chain_at q c"
  by (induction c) auto

lemma entry_at_set_count:
  "entry_at s t = Some e \<Longrightarrow> entry_at (set_count s t v) t = Some (e\<lparr>tc_count := v\<rparr>)"
  by (auto simp: entry_at_def set_count_def chain_at_set_count split: option.splits)

lemma entry_at_set_count_other:
  "t' \<noteq> t \<Longrightarrow> entry_at (set_count s t v) t' = entry_at s t'"
  by (cases t; cases t')
     (auto simp: entry_at_def set_count_def chain_at_set_count_other split: option.splits)

lemma preserves_do_count: "preserves extends (do_count X fuel)"
  unfolding preserves_def using do_count_extends by blast

lemma do_count_hit:
  assumes "0 \<le> nc" and "lookup_ptr X s lw rw le re nc = Some t"
  shows "do_count X (Suc fuel) s lw rw le re nc =
           map_option (\<lambda>v. (v, s)) (lookup_count X s lw rw le re nc)"
proof -
  from lookup_count_Some[OF assms(2)] obtain e where
    e: "entry_at s t = Some e" "lookup_count X s lw rw le re nc = Some (tc_count e)" by blast
  show ?thesis
    using do_count_frame_hit[OF assms(1) find_table_pointer_hit[OF assms(2)]] e by simp
qed

lemma do_count_exhausting:
  assumes "0 \<le> nc" and "table s = Some tb" and "lookup_ptr X s lw rw le re nc = None"
    and "exhausting X s"
  shows "\<exists>t s1. table_store X (s\<lparr>checktimer := to_int (checktimer s + 1), exhausted := True\<rparr>) lw rw le re nc 0
            = Some (t, s1) \<and>
          do_count X (Suc fuel) s lw rw le re nc = Some (0, s1)"
proof -
  have "table (s\<lparr>checktimer := to_int (checktimer s + 1), exhausted := True\<rparr>) = Some tb"
    using assms(2) by simp
  from table_store_Some[OF this] obtain t s1 where
    st: "table_store X (s\<lparr>checktimer := to_int (checktimer s + 1), exhausted := True\<rparr>) lw rw le re nc 0
            = Some (t, s1)" by blast
  then have f: "find_table_pointer X s lw rw le re nc = Some (Some t, s1)"
    using find_table_pointer_exhausting[OF assms(2,3,4)] by simp
  have "entry_at s1 t = Some (new_entry lw rw le re nc 0)"
    using st by (rule entry_at_table_store)
  then show ?thesis
    using do_count_frame_hit[OF assms(1) f] st by (simp add: new_entry_def)
qed

lemma find_table_pointer_Some_table:
  "find_table_pointer X s lw rw le re cost = Some r \<Longrightarrow> \<exists>tb. table s = Some tb"
  by (cases "table s") (simp_all add: find_table_pointer_def)

lemma do_count_frame_Some_table:
  assumes "0 \<le> nc" and "do_count_frame X rec s lw rw le re nc = Some r"
  shows "\<exists>tb. table s = Some tb"
proof (cases "find_table_pointer X s lw rw le re nc")
  case None
  with assms show ?thesis by (simp add: do_count_frame_def)
next
  case (Some a)
  then show ?thesis by (rule find_table_pointer_Some_table)
qed

lemma do_count_Some_table:
  assumes "0 \<le> nc" and "do_count X fuel s lw rw le re nc = Some (v, s')"
  shows "\<exists>tb fuel'. table s = Some tb \<and> fuel = Suc fuel'"
proof -
  from assms(2) obtain fuel' where fu: "fuel = Suc fuel'" by (cases fuel) auto
  with assms do_count_frame_Some_table[of nc X "do_count X fuel'" s lw rw le re "(v, s')"]
  show ?thesis by auto
qed

lemma table_lookup_hit:
  assumes "lookup_ptr X s lw rw le re cost = Some t"
  shows "table_lookup X s lw rw le re cost =
           map_option (\<lambda>v. (v, s)) (lookup_count X s lw rw le re cost)"
proof -
  from lookup_count_Some[OF assms] obtain e where
    "entry_at s t = Some e" "lookup_count X s lw rw le re cost = Some (tc_count e)" by blast
  then show ?thesis
    by (simp add: table_lookup_def find_table_pointer_hit[OF assms])
qed

lemma table_lookup_miss:
  assumes "table s = Some tb" and "lookup_ptr X s lw rw le re cost = None" and "\<not> exhausting X s"
  shows "table_lookup X s lw rw le re cost = Some (- 1, s\<lparr>checktimer := to_int (checktimer s + 1)\<rparr>)"
  by (simp add: table_lookup_def find_table_pointer_miss[OF assms])

lemma table_lookup_exhausting:
  assumes "table s = Some tb" and "lookup_ptr X s lw rw le re cost = None" and "exhausting X s"
  shows "\<exists>t s1. table_store X (s\<lparr>checktimer := to_int (checktimer s + 1), exhausted := True\<rparr>) lw rw le re cost 0
            = Some (t, s1) \<and>
          table_lookup X s lw rw le re cost = Some (0, s1)"
proof -
  have "table (s\<lparr>checktimer := to_int (checktimer s + 1), exhausted := True\<rparr>) = Some tb"
    using assms(1) by simp
  from table_store_Some[OF this] obtain t s1 where
    st: "table_store X (s\<lparr>checktimer := to_int (checktimer s + 1), exhausted := True\<rparr>) lw rw le re cost 0
            = Some (t, s1)" by blast
  then have f: "find_table_pointer X s lw rw le re cost = Some (Some t, s1)"
    using find_table_pointer_exhausting[OF assms] by simp
  have "entry_at s1 t = Some (new_entry lw rw le re cost 0)"
    using st by (rule entry_at_table_store)
  then show ?thesis using st f by (simp add: table_lookup_def new_entry_def)
qed

lemma table_store_fields:
  "table_store X s lw rw le re cost v = Some (t, s') \<Longrightarrow>
   checktimer s' = checktimer s \<and> exhausted s' = exhausted s"
  by (auto simp: table_store_def Let_def split: option.splits)

lemma do_count_entry:
  assumes "0 \<le> nc" and "do_count X fuel s lw rw le re nc = Some (v, s')"
  shows "\<exists>t e. entry_at s' t = Some e \<and> tc_count e = v"
proof -
  from do_count_Some_table[OF assms] obtain tb fuel' where
    tb: "table s = Some tb" and fu: "fuel = Suc fuel'" by blast
  note dc = assms(2)[unfolded fu]
  show ?thesis
  proof (cases "lookup_ptr X s lw rw le re nc")
    case (Some t)
    from lookup_count_Some[OF Some] obtain e where
      e: "entry_at s t = Some e" "lookup_count X s lw rw le re nc = Some (tc_count e)" by blast
    with do_count_hit[OF assms(1) Some, of fuel'] dc
    have "s' = s" "v = tc_count e" by auto
    with e(1) show ?thesis by blast
  next
    case None
    show ?thesis
    proof (cases "exhausting X s")
      case True
      from do_count_exhausting[OF assms(1) tb None True, of fuel'] dc obtain t where
        st: "table_store X (s\<lparr>checktimer := to_int (checktimer s + 1), exhausted := True\<rparr>) lw rw le re nc 0
           = Some (t, s')" and v: "v = 0" by auto
      from entry_at_table_store[OF st]
      have "entry_at s' t = Some (new_entry lw rw le re nc 0)" .
      moreover have "tc_count (new_entry lw rw le re nc 0) = v" by (simp add: new_entry_def v)
      ultimately show ?thesis by blast
    next
      case False
      from do_count_miss[OF assms(1) tb None False, of fuel'] obtain t s1 where
        st: "table_store X (s\<lparr>checktimer := to_int (checktimer s + 1)\<rparr>) lw rw le re nc 0 = Some (t, s1)"
        and eq: "do_count X (Suc fuel') s lw rw le re nc =
           map_option (\<lambda>(v, s2). (v, set_count s2 t v))
             (count_body X (do_count X fuel') s1 lw rw le re nc)"
        by blast
      from eq dc obtain s2 where
        b: "count_body X (do_count X fuel') s1 lw rw le re nc = Some (v, s2)"
        and s': "s' = set_count s2 t v"
        by (cases "count_body X (do_count X fuel') s1 lw rw le re nc") auto
      have "extends s1 s2" using preserves_do_count b by (rule count_body_extends)
      then have "entry_at s2 t = Some (new_entry lw rw le re nc 0)"
        using entry_at_table_store[OF st] by (rule extends_entry_at)
      then have "entry_at s' t = Some ((new_entry lw rw le re nc 0)\<lparr>tc_count := v\<rparr>)"
        unfolding s' by (rule entry_at_set_count)
      moreover have "tc_count ((new_entry lw rw le re nc 0)\<lparr>tc_count := v\<rparr>) = v" by simp
      ultimately show ?thesis by blast
    qed
  qed
qed

subsection \<open>Saturation\<close>

text \<open>
  C4. The claim: \<open>do_count\<close> never returns more than \<open>INT_MAX\<close>. The loop over the split
  words clamps \<open>total\<close> at \<open>INT_MAX\<close>, but the branch for two null boundary connectors
  adds up the counts of the disjuncts of word \<open>lw + 1\<close> and returns the sum as it is. For
  the sentence of 32 words that each have one disjunct without connectors, parsed with
  islands allowed and 31 null words, \<open>do_parse\<close> returns \<open>2^32\<close>.
\<close>

theorem null_branch_exceeds_INT_MAX:
  "map_option fst
     (do_parse (ex_env null_words) 34 (ex_sentence null_words) (alloc_count_context 32) 31
        (ex_options True 0)) = Some 4294967296 \<and>
   INT_MAX < 4294967296"
  by (simp add: model_defs ex_defs Let_def do_count_numeral cong: bind_weak_cong)

subsection \<open>Pseudocounts\<close>








text \<open>Pushing an entry of count 0.\<close>

lemma lookup_count_table_store:
  assumes "table_store X s lw' rw' le' re' cost' 0 = Some (t, s')"
  shows "lookup_count X s' lw rw le re cost = Some 0 \<or>
         lookup_count X s' lw rw le re cost = lookup_count X s lw rw le re cost"
proof -
  from assms obtain tb where tb: "table s = Some tb"
    and s': "s' = s\<lparr>table := Some (tb(pair_hash X (log2_table_size s) lw' rw' le' re' cost' :=
               new_entry lw' rw' le' re' cost' 0
               # tb (pair_hash X (log2_table_size s) lw' rw' le' re' cost')))\<rparr>"
    by (auto simp: table_store_def new_entry_def Let_def split: option.splits)
  let ?h' = "pair_hash X (log2_table_size s) lw' rw' le' re' cost'"
  let ?h = "pair_hash X (log2_table_size s) lw rw le re cost"
  show ?thesis
  proof (cases "?h = ?h' \<and> same_key lw rw le re cost (new_entry lw' rw' le' re' cost' 0)")
    case True
    then have "lookup_count X s' lw rw le re cost = Some 0"
      unfolding s' by (simp add: lookup_count_def lookup_ptr_def entry_at_def new_entry_def Let_def)
    then show ?thesis by simp
  next
    case False
    have "lookup_count X s' lw rw le re cost = lookup_count X s lw rw le re cost"
    proof (cases "?h = ?h'")
      case True
      with False have nk: "\<not> same_key lw rw le re cost (new_entry lw' rw' le' re' cost' 0)" by simp
      show ?thesis
      proof (cases "find_chain lw rw le re cost (tb ?h)")
        case None
        then show ?thesis unfolding s' using tb True nk
          by (simp add: lookup_count_def lookup_ptr_def Let_def)
      next
        case (Some p)
        from find_chain_less[OF Some] have "p \<noteq> length (tb ?h)" by simp
        then show ?thesis unfolding s' using tb True nk Some
          by (simp add: lookup_count_def lookup_ptr_def entry_at_def Let_def)
      qed
    next
      case False
      then show ?thesis unfolding s' using tb
        by (cases "find_chain lw rw le re cost (tb ?h)")
           (simp_all add: lookup_count_def lookup_ptr_def entry_at_def Let_def)
    qed
    then show ?thesis by simp
  qed
qed

lemma lookup_count_fields:
  "table s' = table s \<Longrightarrow> log2_table_size s' = log2_table_size s \<Longrightarrow>
   lookup_count X s' lw rw le re cost = lookup_count X s lw rw le re cost"
  by (cases "table s") (simp_all add: lookup_count_def lookup_ptr_def entry_at_def Let_def)




lemma table_lookup_Some_table:
  "table_lookup X s lw rw le re cost = Some r \<Longrightarrow> \<exists>tb. table s = Some tb"
  by (cases "find_table_pointer X s lw rw le re cost")
     (auto simp: table_lookup_def dest: find_table_pointer_Some_table)

lemma pseudocount_Some_table:
  "pseudocount X s lw rw le re cost = Some r \<Longrightarrow> \<exists>tb. table s = Some tb"
  by (cases "table_lookup X s lw rw le re cost")
     (auto simp: pseudocount_def dest: table_lookup_Some_table)

text \<open>The three ways a lookup can go.\<close>

lemma table_lookup_cases:
  assumes "table_lookup X s lw rw le re cost = Some (v, s')"
  obtains (hit) "lookup_count X s lw rw le re cost = Some v" "s' = s"
  | (miss) "lookup_count X s lw rw le re cost = None" "\<not> exhausting X s" "v = - 1"
      "s' = s\<lparr>checktimer := to_int (checktimer s + 1)\<rparr>"
  | (exhaust) t where "lookup_count X s lw rw le re cost = None" "exhausting X s" "v = 0"
      "table_store X (s\<lparr>checktimer := to_int (checktimer s + 1), exhausted := True\<rparr>) lw rw le re cost 0
         = Some (t, s')"
proof -
  from table_lookup_Some_table[OF assms] obtain tb where tb: "table s = Some tb" by blast
  show thesis
  proof (cases "lookup_ptr X s lw rw le re cost")
    case (Some t)
    from table_lookup_hit[OF Some] assms
    have "lookup_count X s lw rw le re cost = Some v" "s' = s"
      by (cases "lookup_count X s lw rw le re cost"; auto)+
    then show thesis by (rule hit)
  next
    case None
    then have lc: "lookup_count X s lw rw le re cost = None" by (rule lookup_count_None)
    show thesis
    proof (cases "exhausting X s")
      case True
      from table_lookup_exhausting[OF tb None True] assms lc True show thesis
        by (auto intro: exhaust)
    next
      case False
      from table_lookup_miss[OF tb None False] assms lc False show thesis
        by (auto intro: miss)
    qed
  qed
qed











lemma s64_add_Some: "s64_add a b = Some c \<Longrightarrow> c = a + b"
  by (auto simp: s64_add_def split: if_splits)

lemma s64_mul_Some: "s64_mul a b = Some c \<Longrightarrow> c = a * b"
  by (auto simp: s64_mul_def split: if_splits)

lemma add_if_cases:
  assumes "add_if b f r = Some r'"
  obtains (skip) "\<not> b" "r' = r"
  | (add) p where "b" "f (snd r) = Some (p, snd r')" "fst r' = fst r + p"
proof (cases b)
  case False
  with assms have "r' = r" by (simp add: add_if_def)
  with False show thesis by (rule skip)
next
  case True
  with assms obtain p c n where f: "f (snd r) = Some (p, c)" and n: "s64_add (fst r) p = Some n"
    and r': "r' = (n, c)"
    by (auto simp: add_if_def split: Option.bind_splits)
  from s64_add_Some[OF n] have "fst r' = fst r + p" by (simp add: r')
  with True f r' show thesis by (intro add[of p]) simp_all
qed

lemma side_count_None [simp]: "side_count X cnt s aw bw None cost = Some (0, s)"
  by (simp add: side_count_def)

lemma side_count_SomeE:
  assumes "side_count X cnt s aw bw (Some (a, b)) cost = Some r"
  obtains r1 r2 r3 where
    "cnt s aw bw (next (conn X a)) (next (conn X b)) cost = Some r1"
    "add_if (multi (conn X a)) (\<lambda>c. cnt c aw bw (Some a) (next (conn X b)) cost) r1 = Some r2"
    "add_if (multi (conn X b)) (\<lambda>c. cnt c aw bw (next (conn X a)) (Some b) cost) r2 = Some r3"
    "add_if (multi (conn X a) \<and> multi (conn X b)) (\<lambda>c. cnt c aw bw (Some a) (Some b) cost) r3 = Some r"
  using assms by (auto simp: side_count_def split: Option.bind_splits)






lemma bindE:
  assumes "Option.bind m f = Some r"
  obtains x where "m = Some x" "f x = Some r"
  using assms by (cases m) auto

lemma pseudo_pass_SomeE:
  assumes "pseudo_pass X s lw rw le re w d Lm Rm lcost rcost = Some (pt, s')"
  obtains L c1 R c2 p3 c3 p4 where
    "side_count X (pseudocount X) s lw w Lm lcost = Some (L, c1)"
    "side_count X (pseudocount X) c1 w rw Rm rcost = Some (R, c2)"
    "if L > 0 then pseudocount X c2 w rw (right d) re rcost = Some (p3, c3)
     else p3 = 0 \<and> c3 = c2"
    "if le = None \<and> R > 0 then pseudocount X c3 lw w le (left d) lcost = Some (p4, s')
     else p4 = 0 \<and> s' = c3"
    "pt = L * R + L * p3 + R * p4"
proof -
  from assms[unfolded pseudo_pass_def] obtain r1 where
    1: "side_count X (pseudocount X) s lw w Lm lcost = Some r1"
    and a: "(case r1 of (leftcount, ctxt1) \<Rightarrow>
       do {
       (rightcount, ctxt2) \<leftarrow> side_count X (pseudocount X) ctxt1 w rw Rm rcost;
       (pseudototal, ctxt3) \<leftarrow>
         (if leftcount > 0
          then do { (p, c) \<leftarrow> pseudocount X ctxt2 w rw (right d) re rcost;
                    Some (leftcount * rightcount + leftcount * p, c) }
          else Some (leftcount * rightcount, ctxt2));
       if le = None \<and> rightcount > 0
       then do { (p, c) \<leftarrow> pseudocount X ctxt3 lw w le (left d) lcost;
                 Some (pseudototal + rightcount * p, c) }
       else Some (pseudototal, ctxt3)
     }) = Some (pt, s')"
    by (rule bindE)
  obtain L c1 where r1: "r1 = (L, c1)" by (cases r1)
  from a[unfolded r1 prod.case] obtain r2 where
    2: "side_count X (pseudocount X) c1 w rw Rm rcost = Some r2"
    and b: "(case r2 of (rightcount, ctxt2) \<Rightarrow>
       do {
       (pseudototal, ctxt3) \<leftarrow>
         (if L > 0
          then do { (p, c) \<leftarrow> pseudocount X ctxt2 w rw (right d) re rcost;
                    Some (L * rightcount + L * p, c) }
          else Some (L * rightcount, ctxt2));
       if le = None \<and> rightcount > 0
       then do { (p, c) \<leftarrow> pseudocount X ctxt3 lw w le (left d) lcost;
                 Some (pseudototal + rightcount * p, c) }
       else Some (pseudototal, ctxt3)
     }) = Some (pt, s')"
    by (rule bindE)
  obtain R c2 where r2: "r2 = (R, c2)" by (cases r2)
  from b[unfolded r2 prod.case] obtain r3 where
    3: "(if L > 0
          then do { (p, c) \<leftarrow> pseudocount X c2 w rw (right d) re rcost;
                    Some (L * R + L * p, c) }
          else Some (L * R, c2)) = Some r3"
    and c: "(case r3 of (pseudototal, ctxt3) \<Rightarrow>
       if le = None \<and> R > 0
       then do { (p, c) \<leftarrow> pseudocount X ctxt3 lw w le (left d) lcost;
                 Some (pseudototal + R * p, c) }
       else Some (pseudototal, ctxt3)) = Some (pt, s')"
    by (rule bindE)
  obtain pt3 c3 where r3: "r3 = (pt3, c3)" by (cases r3)
  note 3 = 3[unfolded r3] and 4 = c[unfolded r3 prod.case]
  have "\<exists>p3. (if L > 0 then pseudocount X c2 w rw (right d) re rcost = Some (p3, c3)
     else p3 = 0 \<and> c3 = c2) \<and> pt3 = L * R + L * p3"
  proof (cases "L > 0")
    case True
    with 3 obtain q where "pseudocount X c2 w rw (right d) re rcost = Some q"
      "(case q of (p, c) \<Rightarrow> Some (L * R + L * p, c)) = Some (pt3, c3)"
      by (auto elim: bindE)
    with True show ?thesis by (cases q) auto
  next
    case False
    with 3 show ?thesis by simp
  qed
  then obtain p3 where q3: "if L > 0 then pseudocount X c2 w rw (right d) re rcost = Some (p3, c3)
     else p3 = 0 \<and> c3 = c2" and pt3: "pt3 = L * R + L * p3" by blast
  have "\<exists>p4. (if le = None \<and> R > 0 then pseudocount X c3 lw w le (left d) lcost = Some (p4, s')
     else p4 = 0 \<and> s' = c3) \<and> pt = pt3 + R * p4"
  proof (cases "le = None \<and> R > 0")
    case True
    with 4 obtain q where "pseudocount X c3 lw w le (left d) lcost = Some q"
      "(case q of (p, c) \<Rightarrow> Some (pt3 + R * p, c)) = Some (pt, s')"
      by (auto elim: bindE)
    with True show ?thesis by (cases q) auto
  next
    case False
    with 4 show ?thesis by auto
  qed
  then obtain p4 where q4: "if le = None \<and> R > 0 then pseudocount X c3 lw w le (left d) lcost = Some (p4, s')
     else p4 = 0 \<and> s' = c3" and pt: "pt = pt3 + R * p4" by blast
  from 1 2 q3 q4 pt pt3 r1 r2 show thesis by (intro that[of L c1 R c2 p3 c3 p4]) simp_all
qed

lemma real_pass_SomeE:
  assumes "real_pass X rec s lw rw le re w d Lm Rm lcost rcost tot = Some (tot', s')"
  obtains L c1 R c2 x3 c3 x4 where
    "side_count X rec s lw w Lm lcost = Some (L, c1)"
    "side_count X rec c1 w rw Rm rcost = Some (R, c2)"
    "if L > 0 then rec c2 w rw (right d) re rcost = Some (x3, c3) else x3 = 0 \<and> c3 = c2"
    "if le = None \<and> R > 0 then rec c3 lw w le (left d) lcost = Some (x4, s')
     else x4 = 0 \<and> s' = c3"
    "tot' = tot + L * R + L * x3 + R * x4"
proof -
  from assms[unfolded real_pass_def] obtain r1 where
    1: "side_count X rec s lw w Lm lcost = Some r1"
    and a: "(case r1 of (leftcount, ctxt1) \<Rightarrow>
       do {
       (rightcount, ctxt2) \<leftarrow> side_count X rec ctxt1 w rw Rm rcost;
       both \<leftarrow> s64_mul leftcount rightcount;
       total1 \<leftarrow> s64_add tot both;
       (total2, ctxt3) \<leftarrow>
         (if leftcount > 0
          then do { (x, c) \<leftarrow> rec ctxt2 w rw (right d) re rcost;
                    y \<leftarrow> s64_mul leftcount x;
                    z \<leftarrow> s64_add total1 y;
                    Some (z, c) }
          else Some (total1, ctxt2));
       if le = None \<and> rightcount > 0
       then do { (x, c) \<leftarrow> rec ctxt3 lw w le (left d) lcost;
                 y \<leftarrow> s64_mul rightcount x;
                 z \<leftarrow> s64_add total2 y;
                 Some (z, c) }
       else Some (total2, ctxt3)
     }) = Some (tot', s')"
    by (rule bindE)
  obtain L c1 where r1: "r1 = (L, c1)" by (cases r1)
  from a[unfolded r1 prod.case] obtain r2 where
    2: "side_count X rec c1 w rw Rm rcost = Some r2"
    and b: "(case r2 of (rightcount, ctxt2) \<Rightarrow>
       do {
       both \<leftarrow> s64_mul L rightcount;
       total1 \<leftarrow> s64_add tot both;
       (total2, ctxt3) \<leftarrow>
         (if L > 0
          then do { (x, c) \<leftarrow> rec ctxt2 w rw (right d) re rcost;
                    y \<leftarrow> s64_mul L x;
                    z \<leftarrow> s64_add total1 y;
                    Some (z, c) }
          else Some (total1, ctxt2));
       if le = None \<and> rightcount > 0
       then do { (x, c) \<leftarrow> rec ctxt3 lw w le (left d) lcost;
                 y \<leftarrow> s64_mul rightcount x;
                 z \<leftarrow> s64_add total2 y;
                 Some (z, c) }
       else Some (total2, ctxt3)
     }) = Some (tot', s')"
    by (rule bindE)
  obtain R c2 where r2: "r2 = (R, c2)" by (cases r2)
  from b[unfolded r2 prod.case] obtain both where
    m: "s64_mul L R = Some both"
    and c: "do {
       total1 \<leftarrow> s64_add tot both;
       (total2, ctxt3) \<leftarrow>
         (if L > 0
          then do { (x, c) \<leftarrow> rec c2 w rw (right d) re rcost;
                    y \<leftarrow> s64_mul L x;
                    z \<leftarrow> s64_add total1 y;
                    Some (z, c) }
          else Some (total1, c2));
       if le = None \<and> R > 0
       then do { (x, c) \<leftarrow> rec ctxt3 lw w le (left d) lcost;
                 y \<leftarrow> s64_mul R x;
                 z \<leftarrow> s64_add total2 y;
                 Some (z, c) }
       else Some (total2, ctxt3)
     } = Some (tot', s')"
    by (rule bindE)
  from c obtain tot1 where
    t1: "s64_add tot both = Some tot1"
    and e: "do {
       (total2, ctxt3) \<leftarrow>
         (if L > 0
          then do { (x, c) \<leftarrow> rec c2 w rw (right d) re rcost;
                    y \<leftarrow> s64_mul L x;
                    z \<leftarrow> s64_add tot1 y;
                    Some (z, c) }
          else Some (tot1, c2));
       if le = None \<and> R > 0
       then do { (x, c) \<leftarrow> rec ctxt3 lw w le (left d) lcost;
                 y \<leftarrow> s64_mul R x;
                 z \<leftarrow> s64_add total2 y;
                 Some (z, c) }
       else Some (total2, ctxt3)
     } = Some (tot', s')"
    by (rule bindE)
  from e obtain r3 where
    3: "(if L > 0
          then do { (x, c) \<leftarrow> rec c2 w rw (right d) re rcost;
                    y \<leftarrow> s64_mul L x;
                    z \<leftarrow> s64_add tot1 y;
                    Some (z, c) }
          else Some (tot1, c2)) = Some r3"
    and f: "(case r3 of (total2, ctxt3) \<Rightarrow>
       if le = None \<and> R > 0
       then do { (x, c) \<leftarrow> rec ctxt3 lw w le (left d) lcost;
                 y \<leftarrow> s64_mul R x;
                 z \<leftarrow> s64_add total2 y;
                 Some (z, c) }
       else Some (total2, ctxt3)) = Some (tot', s')"
    by (rule bindE)
  obtain tot2 c3 where r3: "r3 = (tot2, c3)" by (cases r3)
  note 3 = 3[unfolded r3] and 4 = f[unfolded r3 prod.case]
  have tot1: "tot1 = tot + L * R" using s64_mul_Some[OF m] s64_add_Some[OF t1] by simp
  have "\<exists>x3. (if L > 0 then rec c2 w rw (right d) re rcost = Some (x3, c3)
      else x3 = 0 \<and> c3 = c2) \<and> tot2 = tot1 + L * x3"
  proof (cases "L > 0")
    case True
    with 3 obtain q where q: "rec c2 w rw (right d) re rcost = Some q"
      and g: "(case q of (x, c) \<Rightarrow> do { y \<leftarrow> s64_mul L x; z \<leftarrow> s64_add tot1 y; Some (z, c) })
               = Some (tot2, c3)"
      by (auto elim: bindE)
    obtain x c where qq: "q = (x, c)" by (cases q)
    from g[unfolded qq prod.case] obtain y where y: "s64_mul L x = Some y"
      and h: "do { z \<leftarrow> s64_add tot1 y; Some (z, c) } = Some (tot2, c3)" by (rule bindE)
    from h obtain z where z: "s64_add tot1 y = Some z" and "Some (z, c) = Some (tot2, c3)"
      by (rule bindE)
    with s64_mul_Some[OF y] s64_add_Some[OF z] q qq True show ?thesis by auto
  next
    case False
    with 3 show ?thesis by simp
  qed
  then obtain x3 where q3: "if L > 0 then rec c2 w rw (right d) re rcost = Some (x3, c3)
      else x3 = 0 \<and> c3 = c2" and tot2: "tot2 = tot1 + L * x3" by blast
  have "\<exists>x4. (if le = None \<and> R > 0 then rec c3 lw w le (left d) lcost = Some (x4, s')
     else x4 = 0 \<and> s' = c3) \<and> tot' = tot2 + R * x4"
  proof (cases "le = None \<and> R > 0")
    case True
    with 4 obtain q where q: "rec c3 lw w le (left d) lcost = Some q"
      and g: "(case q of (x, c) \<Rightarrow> do { y \<leftarrow> s64_mul R x; z \<leftarrow> s64_add tot2 y; Some (z, c) })
               = Some (tot', s')"
      by (auto elim: bindE)
    obtain x c where qq: "q = (x, c)" by (cases q)
    from g[unfolded qq prod.case] obtain y where y: "s64_mul R x = Some y"
      and h: "do { z \<leftarrow> s64_add tot2 y; Some (z, c) } = Some (tot', s')" by (rule bindE)
    from h obtain z where z: "s64_add tot2 y = Some z" and "Some (z, c) = Some (tot', s')"
      by (rule bindE)
    with s64_mul_Some[OF y] s64_add_Some[OF z] q qq True show ?thesis by auto
  next
    case False
    with 4 show ?thesis by auto
  qed
  then obtain x4 where q4: "if le = None \<and> R > 0 then rec c3 lw w le (left d) lcost = Some (x4, s')
     else x4 = 0 \<and> s' = c3" and tot': "tot' = tot2 + R * x4" by blast
  from 1 2 q3 q4 tot1 tot2 tot' r1 r2 show thesis
    by (intro that[of L c1 R c2 x3 c3 x4]) simp_all
qed


subsection \<open>Keys and entries\<close>





subsection \<open>What a count keeps\<close>

lemma inv_countD:
  "inv_count I cnt \<Longrightarrow> I c \<Longrightarrow> cnt c lw rw le re n = Some (v, c') \<Longrightarrow> I c' \<and> 0 \<le> v"
  unfolding inv_count_def by blast

lemma step_okD:
  "step_ok I step \<Longrightarrow> I c \<Longrightarrow> 0 \<le> tot \<Longrightarrow> tot \<le> INT_MAX \<Longrightarrow> step x tot c = Some (r, c') \<Longrightarrow>
   I c' \<and> progress_ok tot r"
  unfolding step_ok_def by blast

lemma add_if_inv:
  assumes "inv_count I cnt" and "I (snd r)" and "0 \<le> fst r"
    and "add_if b (\<lambda>c. cnt c lw rw le re n) r = Some r'"
  shows "I (snd r') \<and> fst r \<le> fst r'"
  using assms(4)
proof (cases rule: add_if_cases)
  case skip
  with assms show ?thesis by simp
next
  case (add p)
  from inv_countD[OF assms(1,2) add(2)] add(3) show ?thesis by simp
qed

lemma side_count_inv:
  assumes "inv_count I cnt" and "I s" and "side_count X cnt s aw bw m cost = Some (n, s')"
  shows "I s' \<and> 0 \<le> n"
proof (cases m)
  case None
  with assms show ?thesis by simp
next
  case (Some ab)
  obtain a b where ab: "ab = (a, b)" by (cases ab)
  from assms(3)[unfolded Some ab] obtain r1 r2 r3 where
    1: "cnt s aw bw (next (conn X a)) (next (conn X b)) cost = Some r1"
    and 2: "add_if (multi (conn X a)) (\<lambda>c. cnt c aw bw (Some a) (next (conn X b)) cost) r1 = Some r2"
    and 3: "add_if (multi (conn X b)) (\<lambda>c. cnt c aw bw (next (conn X a)) (Some b) cost) r2 = Some r3"
    and 4: "add_if (multi (conn X a) \<and> multi (conn X b)) (\<lambda>c. cnt c aw bw (Some a) (Some b) cost) r3 = Some (n, s')"
    by (rule side_count_SomeE)
  obtain n1 s1 where r1: "r1 = (n1, s1)" by (cases r1)
  from inv_countD[OF assms(1,2) 1[unfolded r1]] have i1: "I (snd r1)" "0 \<le> fst r1" by (simp_all add: r1)
  from add_if_inv[OF assms(1) i1 2] i1 have i2: "I (snd r2)" "0 \<le> fst r2" by auto
  from add_if_inv[OF assms(1) i2 3] i2 have i3: "I (snd r3)" "0 \<le> fst r3" by auto
  from add_if_inv[OF assms(1) i3 4] i3 show ?thesis by auto
qed

lemma pseudo_pass_inv:
  assumes "inv_count I (pseudocount X)" and "I s"
    and "pseudo_pass X s lw rw le re w d Lm Rm lcost rcost = Some (pt, s')"
  shows "I s' \<and> 0 \<le> pt"
proof -
  from assms(3) obtain L c1 R c2 p3 c3 p4 where
    pL: "side_count X (pseudocount X) s lw w Lm lcost = Some (L, c1)"
    and pR: "side_count X (pseudocount X) c1 w rw Rm rcost = Some (R, c2)"
    and p3: "if L > 0 then pseudocount X c2 w rw (right d) re rcost = Some (p3, c3)
             else p3 = 0 \<and> c3 = c2"
    and p4: "if le = None \<and> R > 0 then pseudocount X c3 lw w le (left d) lcost = Some (p4, s')
             else p4 = 0 \<and> s' = c3"
    and pt: "pt = L * R + L * p3 + R * p4"
    by (rule pseudo_pass_SomeE)
  from side_count_inv[OF assms(1,2) pL] have 1: "I c1" "0 \<le> L" by simp_all
  from side_count_inv[OF assms(1) 1(1) pR] have 2: "I c2" "0 \<le> R" by simp_all
  have 3: "I c3 \<and> 0 \<le> p3"
    using p3 2(1) inv_countD[OF assms(1) 2(1), of w rw "right d" re rcost p3 c3]
    by (cases "L > 0") auto
  have 4: "I s' \<and> 0 \<le> p4"
    using p4 3 inv_countD[OF assms(1), of c3 lw w le "left d" lcost p4 s']
    by (cases "le = None \<and> R > 0") auto
  from 1 2 3 4 pt show ?thesis by simp
qed

lemma real_pass_inv:
  assumes "inv_count I rec" and "I s"
    and "real_pass X rec s lw rw le re w d Lm Rm lcost rcost tot = Some (tot', s')"
  shows "I s' \<and> tot \<le> tot'"
proof -
  from assms(3) obtain L c1 R c2 x3 c3 x4 where
    rL: "side_count X rec s lw w Lm lcost = Some (L, c1)"
    and rR: "side_count X rec c1 w rw Rm rcost = Some (R, c2)"
    and r3: "if L > 0 then rec c2 w rw (right d) re rcost = Some (x3, c3) else x3 = 0 \<and> c3 = c2"
    and r4: "if le = None \<and> R > 0 then rec c3 lw w le (left d) lcost = Some (x4, s')
             else x4 = 0 \<and> s' = c3"
    and tot': "tot' = tot + L * R + L * x3 + R * x4"
    by (rule real_pass_SomeE)
  from side_count_inv[OF assms(1,2) rL] have 1: "I c1" "0 \<le> L" by simp_all
  from side_count_inv[OF assms(1) 1(1) rR] have 2: "I c2" "0 \<le> R" by simp_all
  have 3: "I c3 \<and> 0 \<le> x3"
    using r3 2(1) inv_countD[OF assms(1) 2(1), of w rw "right d" re rcost x3 c3]
    by (cases "L > 0") auto
  have 4: "I s' \<and> 0 \<le> x4"
    using r4 3 inv_countD[OF assms(1), of c3 lw w le "left d" lcost x4 s']
    by (cases "le = None \<and> R > 0") auto
  have "0 \<le> L * R" "0 \<le> L * x3" "0 \<le> R * x4" using 1 2 3 4 by simp_all
  with 4 tot' show ?thesis by simp
qed

lemma count_split_SomeE:
  assumes "count_split X rec lw rw le re nc w d lcost tot s = Some (r, s')"
  obtains Lm Rm pt s1 where
    "side_match X le (left d) lw w = Some Lm"
    "side_match X (right d) re w rw = Some Rm"
    "pseudo_pass X s lw rw le re w d Lm Rm lcost (nc - lcost) = Some (pt, s1)"
    "if pt \<noteq> 0
     then \<exists>tot1. real_pass X rec s1 lw rw le re w d Lm Rm lcost (nc - lcost) tot = Some (tot1, s') \<and>
            r = (if INT_MAX < tot1 then Returned INT_MAX else Running tot1)
     else r = Running tot \<and> s' = s1"
proof -
  from assms[unfolded count_split_def Let_def] obtain Lm where
    1: "side_match X le (left d) lw w = Some Lm"
    and a: "do {
        Rmatch \<leftarrow> side_match X (right d) re w rw;
        (pseudototal, ctxt1) \<leftarrow> pseudo_pass X s lw rw le re w d Lm Rmatch lcost (nc - lcost);
        if pseudototal \<noteq> 0
        then do {
          (tot1, ctxt2) \<leftarrow>
            real_pass X rec ctxt1 lw rw le re w d Lm Rmatch lcost (nc - lcost) tot;
          if INT_MAX < tot1
          then Some (Returned INT_MAX, ctxt2)
          else Some (Running tot1, ctxt2) }
        else Some (Running tot, ctxt1)
      } = Some (r, s')"
    by (rule bindE)
  from a obtain Rm where
    2: "side_match X (right d) re w rw = Some Rm"
    and b: "do {
        (pseudototal, ctxt1) \<leftarrow> pseudo_pass X s lw rw le re w d Lm Rm lcost (nc - lcost);
        if pseudototal \<noteq> 0
        then do {
          (tot1, ctxt2) \<leftarrow>
            real_pass X rec ctxt1 lw rw le re w d Lm Rm lcost (nc - lcost) tot;
          if INT_MAX < tot1
          then Some (Returned INT_MAX, ctxt2)
          else Some (Running tot1, ctxt2) }
        else Some (Running tot, ctxt1)
      } = Some (r, s')"
    by (rule bindE)
  from b obtain q where
    3: "pseudo_pass X s lw rw le re w d Lm Rm lcost (nc - lcost) = Some q"
    and c: "(case q of (pseudototal, ctxt1) \<Rightarrow>
        if pseudototal \<noteq> 0
        then do {
          (tot1, ctxt2) \<leftarrow>
            real_pass X rec ctxt1 lw rw le re w d Lm Rm lcost (nc - lcost) tot;
          if INT_MAX < tot1
          then Some (Returned INT_MAX, ctxt2)
          else Some (Running tot1, ctxt2) }
        else Some (Running tot, ctxt1)) = Some (r, s')"
    by (rule bindE)
  obtain pt s1 where q: "q = (pt, s1)" by (cases q)
  note c = c[unfolded q prod.case]
  have "if pt \<noteq> 0
     then \<exists>tot1. real_pass X rec s1 lw rw le re w d Lm Rm lcost (nc - lcost) tot = Some (tot1, s') \<and>
            r = (if INT_MAX < tot1 then Returned INT_MAX else Running tot1)
     else r = Running tot \<and> s' = s1"
  proof (cases "pt \<noteq> 0")
    case True
    with c obtain q2 where r: "real_pass X rec s1 lw rw le re w d Lm Rm lcost (nc - lcost) tot = Some q2"
      and e: "(case q2 of (tot1, ctxt2) \<Rightarrow> if INT_MAX < tot1
          then Some (Returned INT_MAX, ctxt2)
          else Some (Running tot1, ctxt2)) = Some (r, s')"
      by (auto elim: bindE)
    obtain tot1 s2 where q2: "q2 = (tot1, s2)" by (cases q2)
    from e[unfolded q2 prod.case] r q2 True show ?thesis by (auto split: if_splits)
  next
    case False
    with c show ?thesis by auto
  qed
  with 1 2 3 q show thesis by (intro that[of Lm Rm pt s1]) simp_all
qed

lemma count_split_ok:
  assumes "inv_count I (pseudocount X)" and "inv_count I rec"
  shows "step_ok I (count_split X rec lw rw le re nc w d)"
  unfolding step_ok_def
proof (intro allI impI)
  fix lcost tot c r c'
  assume I: "I c" and t: "0 \<le> tot" "tot \<le> INT_MAX"
    and cs: "count_split X rec lw rw le re nc w d lcost tot c = Some (r, c')"
  from cs obtain Lm Rm pt s1 where
    pp: "pseudo_pass X c lw rw le re w d Lm Rm lcost (nc - lcost) = Some (pt, s1)"
    and rest: "if pt \<noteq> 0
     then \<exists>tot1. real_pass X rec s1 lw rw le re w d Lm Rm lcost (nc - lcost) tot = Some (tot1, c') \<and>
            r = (if INT_MAX < tot1 then Returned INT_MAX else Running tot1)
     else r = Running tot \<and> c' = s1"
    by (rule count_split_SomeE)
  from pseudo_pass_inv[OF assms(1) I pp] have I1: "I s1" by simp
  show "I c' \<and> progress_ok tot r"
  proof (cases "pt \<noteq> 0")
    case True
    with rest obtain tot1 where
      rp: "real_pass X rec s1 lw rw le re w d Lm Rm lcost (nc - lcost) tot = Some (tot1, c')"
      and r: "r = (if INT_MAX < tot1 then Returned INT_MAX else Running tot1)" by auto
    from real_pass_inv[OF assms(2) I1 rp] r show ?thesis by (auto simp: progress_ok_def)
  next
    case False
    with rest have "r = Running tot" "c' = s1" by simp_all
    with I1 t show ?thesis by (simp add: progress_ok_def)
  qed
qed

lemma for_loop_ok_aux:
  assumes "step_ok I step" and "I s" and "0 \<le> tot" and "tot \<le> INT_MAX"
    and "for_loop step xs tot s = Some (r, s')"
  shows "I s' \<and> progress_ok tot r"
  using assms(2-)
proof (induction xs arbitrary: tot s)
  case Nil
  then show ?case by (auto simp: progress_ok_def)
next
  case (Cons x xs)
  from Cons.prems(4) obtain q where 1: "step x tot s = Some q"
    and 2: "(case q of (r1, s1) \<Rightarrow> case r1 of Returned v \<Rightarrow> Some (Returned v, s1)
             | Running tot1 \<Rightarrow> for_loop step xs tot1 s1) = Some (r, s')"
    unfolding for_loop.simps by (rule bindE)
  obtain r1 s1 where q: "q = (r1, s1)" by (cases q)
  from step_okD[OF assms(1) Cons.prems(1-3) 1[unfolded q]] have I1: "I s1" and p1: "progress_ok tot r1"
    by simp_all
  show ?case
  proof (cases r1)
    case (Running t1)
    with 2 q have l: "for_loop step xs t1 s1 = Some (r, s')" by simp
    from p1 Running have t1: "tot \<le> t1" "t1 \<le> INT_MAX" by (simp_all add: progress_ok_def)
    with Cons.prems(2) have "0 \<le> t1" by simp
    from Cons.IH[OF I1 this t1(2) l] t1 show ?thesis
      by (auto simp: progress_ok_def split: progress.splits)
  next
    case (Returned v)
    with 2 q I1 p1 show ?thesis by (auto simp: progress_ok_def)
  qed
qed

lemma for_loop_ok:
  assumes "\<And>x. step_ok I (step x)"
  shows "step_ok I (\<lambda>x. for_loop (step x) (xs x))"
  unfolding step_ok_def using for_loop_ok_aux[OF assms] by blast

lemma null_loop_inv:
  assumes "inv_count I rec" and "I s" and "null_loop rec w rw nc ds tot s = Some (v, s')"
  shows "I s' \<and> tot \<le> v"
  using assms(2,3)
proof (induction ds arbitrary: tot s)
  case Nil
  then show ?case by simp
next
  case (Cons d ds)
  show ?case
  proof (cases "left d = None")
    case True
    with Cons.prems(2) obtain q where 1: "rec s w rw (right d) None (nc - 1) = Some q"
      and 2: "(case q of (x, ctxt1) \<Rightarrow> do { total1 \<leftarrow> s64_add tot x;
                 null_loop rec w rw nc ds total1 ctxt1 }) = Some (v, s')"
      by (auto elim: bindE)
    obtain x s1 where q: "q = (x, s1)" by (cases q)
    from 2[unfolded q prod.case] obtain t1 where a: "s64_add tot x = Some t1"
      and l: "null_loop rec w rw nc ds t1 s1 = Some (v, s')" by (rule bindE)
    from inv_countD[OF assms(1) Cons.prems(1) 1[unfolded q]] have "I s1" "0 \<le> x" by simp_all
    with Cons.IH[OF _ l] s64_add_Some[OF a] show ?thesis by simp
  next
    case False
    with Cons show ?thesis by simp
  qed
qed

lemma count_body_inv:
  assumes "inv_count I (pseudocount X)" and "inv_count I rec" and "I s"
    and "count_body X rec s lw rw le re nc = Some (v, s')"
  shows "I s' \<and> 0 \<le> v"
proof -
  consider (adj) "rw = 1 + lw"
    | (noisl) "rw \<noteq> 1 + lw" "le = None" "re = None" "\<not> islands_ok s" "lw \<noteq> - 1"
    | (zero) "rw \<noteq> 1 + lw" "le = None" "re = None" "islands_ok s \<or> lw = - 1" "nc = 0"
    | (null) "rw \<noteq> 1 + lw" "le = None" "re = None" "islands_ok s \<or> lw = - 1" "nc \<noteq> 0"
    | (gen) "rw \<noteq> 1 + lw" "le \<noteq> None \<or> re \<noteq> None"
    by blast
  then show ?thesis
  proof cases
    case adj
    with assms(3,4) show ?thesis by (auto simp: count_body_adjacent split: if_splits)
  next
    case noisl
    with assms(3,4) show ?thesis by (auto simp: count_body_no_islands split: if_splits)
  next
    case zero
    with assms(3,4) show ?thesis by (simp add: count_body_null_zero)
  next
    case null
    from assms(4)[unfolded null(2,3) count_body_null[OF null(1,4,5)]] obtain ds where
      "word_disjuncts s (lw + 1) = Some ds"
      and a: "do {
       (tot, ctxt2) \<leftarrow> null_loop rec (lw + 1) rw nc ds 0 s;
       (x, ctxt3) \<leftarrow> rec ctxt2 (lw + 1) rw None None (nc - 1);
       tot1 \<leftarrow> s64_add tot x;
       Some (tot1, ctxt3) } = Some (v, s')"
      by (rule bindE)
    from a obtain q where 1: "null_loop rec (lw + 1) rw nc ds 0 s = Some q"
      and b: "(case q of (tot, ctxt2) \<Rightarrow> do {
       (x, ctxt3) \<leftarrow> rec ctxt2 (lw + 1) rw None None (nc - 1);
       tot1 \<leftarrow> s64_add tot x;
       Some (tot1, ctxt3) }) = Some (v, s')" by (rule bindE)
    obtain tot s2 where q: "q = (tot, s2)" by (cases q)
    from b[unfolded q prod.case] obtain q2 where 2: "rec s2 (lw + 1) rw None None (nc - 1) = Some q2"
      and c: "(case q2 of (x, ctxt3) \<Rightarrow> do { tot1 \<leftarrow> s64_add tot x; Some (tot1, ctxt3) }) = Some (v, s')"
      by (rule bindE)
    obtain x s3 where q2: "q2 = (x, s3)" by (cases q2)
    from c[unfolded q2 prod.case] obtain t1 where d: "s64_add tot x = Some t1" and e: "Some (t1, s3) = Some (v, s')"
      by (rule bindE)
    from null_loop_inv[OF assms(2,3) 1[unfolded q]] have i2: "I s2" "0 \<le> tot" by simp_all
    from inv_countD[OF assms(2) i2(1) 2[unfolded q2]] have "I s3" "0 \<le> x" by simp_all
    with i2 s64_add_Some[OF d] e show ?thesis by simp
  next
    case gen
    let ?step = "\<lambda>w. for_loop
              (\<lambda>d. for_loop
                 (\<lambda>lcost. count_split X rec lw rw le re nc w d lcost)
                 [0..nc])
              (form_match_list X w le lw re rw)"
    have ok: "step_ok I ?step"
      by (rule for_loop_ok, rule for_loop_ok, rule count_split_ok[OF assms(1,2)])
    from assms(4)[unfolded count_body_general[OF gen]] obtain q where
      l: "for_loop ?step
           [(case le of None \<Rightarrow> lw + 1 | Some a \<Rightarrow> word (conn X a))..
            (case re of None \<Rightarrow> rw | Some b \<Rightarrow> word (conn X b) + 1) - 1] 0 s = Some q"
      and r: "(case q of (r, ctxt2) \<Rightarrow> case r of
         Returned v \<Rightarrow> Some (v, ctxt2)
       | Running tot \<Rightarrow> Some (tot, ctxt2)) = Some (v, s')"
      by (rule bindE)
    obtain r1 s1 where q: "q = (r1, s1)" by (cases q)
    have "(0::int) \<le> INT_MAX" by (simp add: INT_MAX_def)
    from for_loop_ok_aux[OF ok assms(3) _ this l[unfolded q]]
    have "I s1" "progress_ok 0 r1" by simp_all
    with r q show ?thesis by (cases r1) (auto simp: progress_ok_def INT_MAX_def)
  qed
qed

lemma do_count_cases:
  assumes "do_count X fuel s lw rw le re nc = Some (v, s')"
  obtains (neg) "nc < 0" "v = 0" "s' = s"
  | (hit) "0 \<le> nc" "lookup_count X s lw rw le re nc = Some v" "s' = s"
  | (exhaust) t where "0 \<le> nc" "lookup_count X s lw rw le re nc = None" "exhausting X s" "v = 0"
      "table_store X (s\<lparr>checktimer := to_int (checktimer s + 1), exhausted := True\<rparr>) lw rw le re nc 0
         = Some (t, s')"
  | (miss) fuel' t s1 s2 where "fuel = Suc fuel'" "0 \<le> nc"
      "lookup_count X s lw rw le re nc = None" "\<not> exhausting X s"
      "table_store X (s\<lparr>checktimer := to_int (checktimer s + 1)\<rparr>) lw rw le re nc 0 = Some (t, s1)"
      "count_body X (do_count X fuel') s1 lw rw le re nc = Some (v, s2)"
      "s' = set_count s2 t v"
proof (cases "nc < 0")
  case True
  from assms obtain fuel' where "fuel = Suc fuel'" by (cases fuel) auto
  with assms True have "v = 0" "s' = s" by (simp_all add: do_count_frame_negative)
  with True show thesis by (rule neg)
next
  case False
  then have nc: "0 \<le> nc" by simp
  from do_count_Some_table[OF nc assms] obtain tb fuel' where
    tb: "table s = Some tb" and fu: "fuel = Suc fuel'" by blast
  note dc = assms[unfolded fu]
  show thesis
  proof (cases "lookup_ptr X s lw rw le re nc")
    case (Some t)
    from do_count_hit[OF nc Some, of fuel'] dc
    have "lookup_count X s lw rw le re nc = Some v" "s' = s"
      by (cases "lookup_count X s lw rw le re nc"; auto)+
    with nc show thesis by (rule hit)
  next
    case None
    then have lc: "lookup_count X s lw rw le re nc = None" by (rule lookup_count_None)
    show thesis
    proof (cases "exhausting X s")
      case True
      from do_count_exhausting[OF nc tb None True, of fuel'] dc obtain t where
        "table_store X (s\<lparr>checktimer := to_int (checktimer s + 1), exhausted := True\<rparr>) lw rw le re nc 0
           = Some (t, s')" "v = 0" by auto
      with nc lc True show thesis by (intro exhaust[of t]) simp_all
    next
      case False
      from do_count_miss[OF nc tb None False, of fuel'] obtain t s1 where
        st: "table_store X (s\<lparr>checktimer := to_int (checktimer s + 1)\<rparr>) lw rw le re nc 0 = Some (t, s1)"
        and eq: "do_count X (Suc fuel') s lw rw le re nc =
           map_option (\<lambda>(v, s2). (v, set_count s2 t v))
             (count_body X (do_count X fuel') s1 lw rw le re nc)"
        by blast
      from eq dc obtain s2 where
        b: "count_body X (do_count X fuel') s1 lw rw le re nc = Some (v, s2)"
        and s': "s' = set_count s2 t v"
        by (cases "count_body X (do_count X fuel') s1 lw rw le re nc") auto
      show thesis by (rule miss[OF fu nc lc False st b s'])
    qed
  qed
qed

lemma pseudocount_cases:
  assumes "pseudocount X s lw rw le re cost = Some (p, s')"
  obtains (hit) v where "lookup_count X s lw rw le re cost = Some v" "s' = s"
      "p = (if v = 0 then 0 else 1)"
  | (miss) "lookup_count X s lw rw le re cost = None" "\<not> exhausting X s" "p = 1"
      "s' = s\<lparr>checktimer := to_int (checktimer s + 1)\<rparr>"
  | (exhaust) t where "lookup_count X s lw rw le re cost = None" "exhausting X s" "p = 0"
      "table_store X (s\<lparr>checktimer := to_int (checktimer s + 1), exhausted := True\<rparr>) lw rw le re cost 0
         = Some (t, s')"
proof -
  from assms obtain v where tl: "table_lookup X s lw rw le re cost = Some (v, s')"
    and p: "p = (if v = 0 then 0 else 1)"
    by (auto simp: pseudocount_def split: Option.bind_splits if_splits)
  from tl show thesis
  proof (cases rule: table_lookup_cases)
    case hit
    with p show ?thesis by (intro that(1)[of v]) simp_all
  next
    case miss
    with p show ?thesis by (intro that(2)) simp_all
  next
    case (exhaust t)
    with p show ?thesis by (intro that(3)[of t]) simp_all
  qed
qed

text \<open>The exact parser differs from the parser only in the budget.\<close>

lemma exact_simps [simp]:
  "conn (exact X) = conn X" "hash_fn (exact X) = hash_fn X" "easy_match (exact X) = easy_match X"
  "form_match_list (exact X) = form_match_list X" "resources_exhausted (exact X) r m = False"
  by (simp_all add: exact_def)

lemma pair_hash_exact [simp]:
  "pair_hash (exact X) n lw rw le re cost = pair_hash X n lw rw le re cost"
  by (simp add: pair_hash_def)

lemma lookup_ptr_exact [simp]:
  "lookup_ptr (exact X) s lw rw le re cost = lookup_ptr X s lw rw le re cost"
  by (simp add: lookup_ptr_def split: option.splits)

lemma lookup_count_exact [simp]:
  "lookup_count (exact X) s lw rw le re cost = lookup_count X s lw rw le re cost"
  by (simp add: lookup_count_def)

lemma table_store_exact [simp]:
  "table_store (exact X) s lw rw le re cost v = table_store X s lw rw le re cost v"
  by (simp add: table_store_def split: option.splits)

lemma exhausting_exact [simp]: "exhausting (exact X) s = exhausted s"
  by (simp add: exhausting_def)

lemma do_match_exact [simp]: "do_match (exact X) a b aw bw = do_match X a b aw bw"
  by (simp add: do_match_def Let_def)

lemma side_match_exact [simp]: "side_match (exact X) x y aw bw = side_match X x y aw bw"
  by (simp add: side_match_def split: option.splits)

text \<open>Counts that are not negative.\<close>

lemma entry_at_table_store_cases:
  assumes "table_store X s lw rw le re cost v = Some (t, s')" and "entry_at s' t' = Some e"
  shows "e = new_entry lw rw le re cost v \<or> entry_at s t' = Some e"
  using assms
  by (cases t')
     (auto simp: table_store_def entry_at_def new_entry_def Let_def split: option.splits if_splits)

lemma chain_at_set_count_map:
  "chain_at p (chain_set_count p v c) = map_option (\<lambda>e. e\<lparr>tc_count := v\<rparr>) (chain_at p c)"
  by (induction c) auto

lemma entry_at_set_count_map:
  "entry_at (set_count s t v) t = map_option (\<lambda>e. e\<lparr>tc_count := v\<rparr>) (entry_at s t)"
  by (auto simp: entry_at_def set_count_def chain_at_set_count_map split: option.splits)

lemma counts_nonneg_fields:
  "counts_nonneg s \<Longrightarrow> table s' = table s \<Longrightarrow> counts_nonneg s'"
  by (simp add: counts_nonneg_def entry_at_def)

lemma counts_nonnegD: "counts_nonneg s \<Longrightarrow> entry_at s t = Some e \<Longrightarrow> 0 \<le> tc_count e"
  unfolding counts_nonneg_def by blast

lemma counts_nonneg_table_store:
  assumes "counts_nonneg s" and "table_store X s lw rw le re cost v = Some (t, s')" and "0 \<le> v"
  shows "counts_nonneg s'"
  unfolding counts_nonneg_def
proof (intro allI impI)
  fix t' e assume "entry_at s' t' = Some e"
  from entry_at_table_store_cases[OF assms(2) this] assms(3) counts_nonnegD[OF assms(1), of t' e]
  show "0 \<le> tc_count e" by (auto simp: new_entry_def)
qed

lemma counts_nonneg_set_count:
  assumes "counts_nonneg s" and "0 \<le> v"
  shows "counts_nonneg (set_count s t v)"
  unfolding counts_nonneg_def
proof (intro allI impI)
  fix t' e assume e: "entry_at (set_count s t v) t' = Some e"
  show "0 \<le> tc_count e"
  proof (cases "t' = t")
    case True
    with e assms(2) show ?thesis by (auto simp: entry_at_set_count_map)
  next
    case False
    with e counts_nonnegD[OF assms(1), of t' e] show ?thesis by (simp add: entry_at_set_count_other)
  qed
qed

lemma counts_nonneg_lookup:
  "counts_nonneg s \<Longrightarrow> lookup_count X s lw rw le re cost = Some v \<Longrightarrow> 0 \<le> v"
  by (auto simp: lookup_count_def split: Option.bind_splits dest: counts_nonnegD)

lemma set_count_fields [simp]:
  "exhausted (set_count s t v) = exhausted s" "checktimer (set_count s t v) = checktimer s"
  "local_sent (set_count s t v) = local_sent s" "null_block (set_count s t v) = null_block s"
  "islands_ok (set_count s t v) = islands_ok s"
  "log2_table_size (set_count s t v) = log2_table_size s"
  "current_resources (set_count s t v) = current_resources s"
  "(table (set_count s t v) = None) = (table s = None)"
  by (auto simp: set_count_def split: option.splits)

lemma table_store_statics:
  "table_store X s lw rw le re cost v = Some (t, s') \<Longrightarrow>
   local_sent s' = local_sent s \<and> null_block s' = null_block s \<and> islands_ok s' = islands_ok s \<and>
   log2_table_size s' = log2_table_size s \<and> current_resources s' = current_resources s \<and>
   table s' \<noteq> None \<and> table s \<noteq> None"
  by (auto simp: table_store_def Let_def split: option.splits)

text \<open>The exact count never exhausts and stores no negative count.\<close>

lemma pseudocount_exact_inv:
  "inv_count (\<lambda>s. \<not> exhausted s \<and> counts_nonneg s) (pseudocount (exact X))"
  unfolding inv_count_def
proof (intro allI impI)
  fix c lw rw le re n v c'
  assume I: "\<not> exhausted c \<and> counts_nonneg c"
    and p: "pseudocount (exact X) c lw rw le re n = Some (v, c')"
  from p show "(\<not> exhausted c' \<and> counts_nonneg c') \<and> 0 \<le> v"
  proof (cases rule: pseudocount_cases)
    case (hit v)
    with I show ?thesis by simp
  next
    case miss
    with I show ?thesis by (auto intro: counts_nonneg_fields)
  next
    case (exhaust t)
    with I show ?thesis by simp
  qed
qed

lemma do_count_exact_inv:
  "inv_count (\<lambda>s. \<not> exhausted s \<and> counts_nonneg s) (do_count (exact X) fuel)"
proof (induction fuel)
  case 0
  show ?case by (simp add: inv_count_def)
next
  case (Suc fuel)
  show ?case unfolding inv_count_def
  proof (intro allI impI)
    fix c lw rw le re n v c'
    assume I: "\<not> exhausted c \<and> counts_nonneg c"
      and p: "do_count (exact X) (Suc fuel) c lw rw le re n = Some (v, c')"
    from p show "(\<not> exhausted c' \<and> counts_nonneg c') \<and> 0 \<le> v"
    proof (cases rule: do_count_cases)
      case neg
      with I show ?thesis by simp
    next
      case hit
      with I show ?thesis by (auto dest: counts_nonneg_lookup)
    next
      case (exhaust t)
      with I show ?thesis by simp
    next
      case (miss fuel' t s1 s2)
      then have fu: "fuel' = fuel" by simp
      have "counts_nonneg (c\<lparr>checktimer := to_int (checktimer c + 1)\<rparr>)"
        using I by (auto intro: counts_nonneg_fields)
      from counts_nonneg_table_store[OF this miss(5)] table_store_fields[OF miss(5)] I
      have I1: "\<not> exhausted s1 \<and> counts_nonneg s1" by simp
      from count_body_inv[OF pseudocount_exact_inv Suc I1 miss(6)[unfolded fu]]
      have "\<not> exhausted s2" "counts_nonneg s2" "0 \<le> v" by simp_all
      with miss(7) show ?thesis by (simp add: counts_nonneg_set_count)
    qed
  qed
qed

text \<open>What an exhausted count does keeps it behind.\<close>

lemma below_fields:
  "below X sA sB \<Longrightarrow> table sA' = table sA \<Longrightarrow> log2_table_size sA' = log2_table_size sA \<Longrightarrow>
   table sB' = table sB \<Longrightarrow> log2_table_size sB' = log2_table_size sB \<Longrightarrow> below X sA' sB'"
  unfolding below_def
  using lookup_count_fields[of sA' sA X] lookup_count_fields[of sB' sB X] by simp

lemma below_zero_store:
  assumes "below X sA sB" and "counts_nonneg sA"
    and "table_store X sB lw rw le re cost 0 = Some (t, sB')"
  shows "below X sA sB'"
  unfolding below_def
proof (intro allI impI)
  fix lw' rw' le' re' cost' b
  assume b: "lookup_count X sB' lw' rw' le' re' cost' = Some b"
  from lookup_count_table_store[OF assms(3), of lw' rw' le' re' cost']
  show "0 \<le> b \<and> (case lookup_count X sA lw' rw' le' re' cost' of None \<Rightarrow> b = 0 | Some a \<Rightarrow> b \<le> a)"
  proof
    assume "lookup_count X sB' lw' rw' le' re' cost' = Some 0"
    with b have "b = 0" by simp
    then show ?thesis using counts_nonneg_lookup[OF assms(2), of X lw' rw' le' re' cost']
      by (auto split: option.splits)
  next
    assume "lookup_count X sB' lw' rw' le' re' cost' = lookup_count X sB lw' rw' le' re' cost'"
    with b assms(1) show ?thesis by (simp add: below_def)
  qed
qed

lemma behind_zero_store:
  assumes "behind X sA sB"
    and "table_store X (sB\<lparr>checktimer := to_int (checktimer sB + 1), exhausted := True\<rparr>) lw rw le re cost 0
           = Some (t, sB')"
  shows "exhausted sB' \<and> behind X sA sB'"
proof -
  let ?s = "sB\<lparr>checktimer := to_int (checktimer sB + 1), exhausted := True\<rparr>"
  from assms(1) have "below X sA sB" "counts_nonneg sA" by (simp_all add: behind_def)
  then have "below X sA ?s" by (auto intro: below_fields)
  from below_zero_store[OF this \<open>counts_nonneg sA\<close> assms(2)] have b: "below X sA sB'" .
  from table_store_fields[OF assms(2)] have e: "exhausted sB'" by simp
  from table_store_statics[OF assms(2)] assms(1) b e show ?thesis
    by (simp add: behind_def)
qed

lemma pseudocount_behind_inv:
  "inv_count (\<lambda>s. exhausted s \<and> behind X sA s) (pseudocount X)"
  unfolding inv_count_def
proof (intro allI impI)
  fix c lw rw le re n v c'
  assume I: "exhausted c \<and> behind X sA c"
    and p: "pseudocount X c lw rw le re n = Some (v, c')"
  from p show "(exhausted c' \<and> behind X sA c') \<and> 0 \<le> v"
  proof (cases rule: pseudocount_cases)
    case (hit v)
    with I show ?thesis by simp
  next
    case miss
    with I show ?thesis by (simp add: exhausting_def)
  next
    case (exhaust t)
    from behind_zero_store[OF conjunct2[OF I] exhaust(4)] exhaust(3) show ?thesis by simp
  qed
qed

lemma do_count_behind_inv:
  "inv_count (\<lambda>s. exhausted s \<and> behind X sA s) (do_count X fuel)"
  unfolding inv_count_def
proof (intro allI impI)
  fix c lw rw le re n v c'
  assume I: "exhausted c \<and> behind X sA c"
    and p: "do_count X fuel c lw rw le re n = Some (v, c')"
  from p show "(exhausted c' \<and> behind X sA c') \<and> 0 \<le> v"
  proof (cases rule: do_count_cases)
    case neg
    with I show ?thesis by simp
  next
    case hit
    with I show ?thesis by (auto simp: behind_def below_def)
  next
    case (exhaust t)
    from behind_zero_store[OF conjunct2[OF I] exhaust(5)] exhaust(4) show ?thesis by simp
  next
    case (miss fuel' t s1 s2)
    with I show ?thesis by (simp add: exhausting_def)
  qed
qed

subsection \<open>Entries after a store\<close>

lemma find_chain_set_count [simp]:
  "find_chain lw rw le re cost (chain_set_count p v c) = find_chain lw rw le re cost c"
  by (induction c) (auto simp: same_key_def)

lemma lookup_ptr_set_count [simp]:
  "lookup_ptr X (set_count s t v) lw rw le re cost = lookup_ptr X s lw rw le re cost"
  by (cases "table s") (auto simp: lookup_ptr_def set_count_def Let_def)

lemma lookup_count_set_count:
  "lookup_count X (set_count s t v) lw rw le re cost =
     (if lookup_ptr X s lw rw le re cost = Some t then Some v else lookup_count X s lw rw le re cost)"
proof (cases "lookup_ptr X s lw rw le re cost")
  case None
  then show ?thesis by (simp add: lookup_count_def)
next
  case (Some t')
  from lookup_ptr_entry[OF Some] obtain e where e: "entry_at s t' = Some e" by blast
  show ?thesis
  proof (cases "t' = t")
    case True
    with Some e show ?thesis by (simp add: lookup_count_def entry_at_set_count_map)
  next
    case False
    with Some show ?thesis by (simp add: lookup_count_def entry_at_set_count_other)
  qed
qed



subsection \<open>Tables where no bucket holds a key twice\<close>














lemma map_key_of_set_count [simp]: "map key_of (chain_set_count p v c) = map key_of c"
  by (induction c) (auto simp: key_of_def)

lemma distinct_keys_set_count [simp]: "distinct_keys (set_count s t v) = distinct_keys s"
  by (cases "table s") (auto simp: distinct_keys_def set_count_def)

lemma table_ok_set_count [simp]: "table_ok (set_count s t v) = table_ok s"
  by (simp add: table_ok_def sentence_fits_def)





subsection \<open>Memoization\<close>



text \<open>
  C10, as amended. A call of \<open>table_lookup\<close> (and so of \<open>pseudocount\<close>) whose key is in
  the table changes nothing in the context. A call whose key is absent advances
  \<open>checktimer\<close> (by one, as an \<open>int\<close>); when it does not find the context exhausted it changes nothing else and
  \<open>pseudocount\<close> is 1; when it does (the flag is set, or the poll that is due says so),
  it sets \<open>exhausted\<close> and stores an entry of count 0 for the key, \<open>pseudocount\<close> is 0
  instead of 1, and no later call of \<open>do_count\<close> changes that entry.
\<close>

theorem lookups_change_the_context:
  assumes "table ctxt = Some tb"
  shows "(\<forall>t. lookup_ptr X ctxt lw rw le re cost = Some t \<longrightarrow>
            table_lookup X ctxt lw rw le re cost =
              map_option (\<lambda>v. (v, ctxt)) (lookup_count X ctxt lw rw le re cost)) \<and>
         (lookup_ptr X ctxt lw rw le re cost = None \<and> \<not> exhausting X ctxt \<longrightarrow>
            table_lookup X ctxt lw rw le re cost =
              Some (- 1, ctxt\<lparr>checktimer := to_int (checktimer ctxt + 1)\<rparr>) \<and>
            pseudocount X ctxt lw rw le re cost =
              Some (1, ctxt\<lparr>checktimer := to_int (checktimer ctxt + 1)\<rparr>)) \<and>
         (lookup_ptr X ctxt lw rw le re cost = None \<and> exhausting X ctxt \<longrightarrow>
            (\<exists>t ctxt'.
               table_lookup X ctxt lw rw le re cost = Some (0, ctxt') \<and>
               pseudocount X ctxt lw rw le re cost = Some (0, ctxt') \<and>
               checktimer ctxt' = to_int (checktimer ctxt + 1) \<and> exhausted ctxt' \<and>
               entry_at ctxt t = None \<and>
               entry_at ctxt' t = Some (new_entry lw rw le re cost 0) \<and>
               (\<forall>fuel lw' rw' le' re' cost' v ctxt''.
                  do_count X fuel ctxt' lw' rw' le' re' cost' = Some (v, ctxt'') \<longrightarrow>
                  entry_at ctxt'' t = Some (new_entry lw rw le re cost 0))))"
proof (intro conjI allI impI)
  fix t assume "lookup_ptr X ctxt lw rw le re cost = Some t"
  then show "table_lookup X ctxt lw rw le re cost =
              map_option (\<lambda>v. (v, ctxt)) (lookup_count X ctxt lw rw le re cost)"
    by (rule table_lookup_hit)
next
  assume h: "lookup_ptr X ctxt lw rw le re cost = None \<and> \<not> exhausting X ctxt"
  then show m: "table_lookup X ctxt lw rw le re cost =
              Some (- 1, ctxt\<lparr>checktimer := to_int (checktimer ctxt + 1)\<rparr>)"
    using table_lookup_miss[OF assms] by blast
  then show "pseudocount X ctxt lw rw le re cost =
              Some (1, ctxt\<lparr>checktimer := to_int (checktimer ctxt + 1)\<rparr>)"
    by (simp add: pseudocount_def)
next
  assume h: "lookup_ptr X ctxt lw rw le re cost = None \<and> exhausting X ctxt"
  from table_lookup_exhausting[OF assms, of X lw rw le re cost] h obtain t s1 where
    st: "table_store X (ctxt\<lparr>checktimer := to_int (checktimer ctxt + 1), exhausted := True\<rparr>) lw rw le re cost 0
            = Some (t, s1)"
    and tl: "table_lookup X ctxt lw rw le re cost = Some (0, s1)" by auto
  have pc: "pseudocount X ctxt lw rw le re cost = Some (0, s1)"
    using tl by (simp add: pseudocount_def)
  have f: "checktimer s1 = to_int (checktimer ctxt + 1)" "exhausted s1"
    using table_store_fields[OF st] by simp_all
  have e1: "entry_at s1 t = Some (new_entry lw rw le re cost 0)"
    using st by (rule entry_at_table_store)
  have e0: "entry_at ctxt t = None"
    using st assms by (auto simp: table_store_def entry_at_def Let_def chain_at_None)
  have perm: "entry_at s2 t = Some (new_entry lw rw le re cost 0)"
    if "do_count X fuel s1 lw' rw' le' re' cost' = Some (v, s2)" for fuel lw' rw' le' re' cost' v s2
    using do_count_extends[OF that] e1 by (rule extends_entry_at)
  show "\<exists>t ctxt'.
               table_lookup X ctxt lw rw le re cost = Some (0, ctxt') \<and>
               pseudocount X ctxt lw rw le re cost = Some (0, ctxt') \<and>
               checktimer ctxt' = to_int (checktimer ctxt + 1) \<and> exhausted ctxt' \<and>
               entry_at ctxt t = None \<and>
               entry_at ctxt' t = Some (new_entry lw rw le re cost 0) \<and>
               (\<forall>fuel lw' rw' le' re' cost' v ctxt''.
                  do_count X fuel ctxt' lw' rw' le' re' cost' = Some (v, ctxt'') \<longrightarrow>
                  entry_at ctxt'' t = Some (new_entry lw rw le re cost 0))"
    using tl pc f e0 e1 perm by blast
qed

theorem lookups_change_the_context_witness:
  "table ex_exhausted_context = Some (\<lambda>i. []) \<and>
   lookup_ptr (ex_env linked_words) ex_exhausted_context 0 1 None None 0 = None \<and>
   exhausting (ex_env linked_words) ex_exhausted_context \<and>
   (\<exists>ctxt'. pseudocount (ex_env linked_words) ex_exhausted_context 0 1 None None 0 = Some (0, ctxt') \<and>
      checktimer ctxt' = 1 \<and>
      lookup_count (ex_env linked_words) ctxt' 0 1 None None 0 = Some 0)"
proof -
  let ?X = "ex_env linked_words" and ?c = "ex_exhausted_context"
  have t: "table ?c = Some (\<lambda>i. [])" by (simp add: model_defs ex_defs Let_def)
  have l: "lookup_ptr ?X ?c 0 1 None None 0 = None" by (simp add: model_defs ex_defs Let_def)
  have x: "exhausting ?X ?c" by (simp add: exhausting_def model_defs ex_defs Let_def)
  have ct: "checktimer ?c = 0" by (simp add: model_defs ex_defs Let_def)
  from lookups_change_the_context[OF t, of ?X 0 1 None None 0] l x ct obtain ctxt' where
    p: "pseudocount ?X ?c 0 1 None None 0 = Some (0, ctxt')" and c: "checktimer ctxt' = 1"
    by (auto simp: to_int_def)
  have "Option.bind (pseudocount ?X ?c 0 1 None None 0)
          (\<lambda>(n, c). lookup_count ?X c 0 1 None None 0) = Some 0"
    by (simp add: model_defs ex_defs Let_def cong: bind_weak_cong)
  with p have "lookup_count ?X ctxt' 0 1 None None 0 = Some 0" by simp
  with t l x p c show ?thesis by blast
qed

text \<open>
  C10 as stated fails for a key that is in the table: after the count of the two linked
  words, a \<open>table_lookup\<close> of the memoized key \<open>(-1, 2, null, null, 1)\<close> returns its
  count 1 and leaves \<open>checktimer\<close>, and the whole context, as they were.
\<close>

theorem lookup_hit_keeps_checktimer:
  "Option.bind
     (do_count (ex_env linked_words) 3 (ex_context linked_words) (- 1) 2 None None 1)
     (\<lambda>(v, c). map_option (\<lambda>(n, c'). (n, checktimer c' - checktimer c, c' = c))
        (table_lookup (ex_env linked_words) c (- 1) 2 None None 1)) = Some (1, 0, True)"
  by (simp add: model_defs ex_defs Let_def do_count_numeral cong: bind_weak_cong)

subsection \<open>The lifetime of the memo table\<close>










end
